theory Spec2Isabelle
  imports Complex_Main
begin

section \<open>Python numbers\<close>

text \<open>
  Both scripts compute with Python \<open>int\<close> (unbounded, modelled by \<^typ>\<open>int\<close>) and Python
  \<open>float\<close> (IEEE 754 binary64). A float is modelled by the real number it denotes, and every
  float operation is the exact operation followed by rounding to the nearest binary64 value,
  ties to even (\<open>fl\<close>). The exponent search is bounded as the format is: at most 1023
  halvings above 1 and at most 1022 doublings below 1, so that values under \<open>2^-1022\<close> are
  rounded on the fixed subnormal grid \<open>2^-1074\<close>. Overflow to infinity is not modelled; no
  value of these scripts comes near \<open>2^1024\<close>.
\<close>

definition pow2 :: "int \<Rightarrow> real" where
  "pow2 e = (if 0 \<le> e then 2 ^ nat e else 1 / 2 ^ nat (- e))"

definition round_even :: "real \<Rightarrow> int" where
  "round_even y =
     (let f = \<lfloor>y\<rfloor>; d = y - of_int f
      in if d < 1 / 2 then f else if 1 / 2 < d then f + 1 else if even f then f else f + 1)"

fun expo_up :: "nat \<Rightarrow> real \<Rightarrow> int" where
  "expo_up 0 x = 0"
| "expo_up (Suc n) x = (if 2 \<le> x then 1 + expo_up n (x / 2) else 0)"

fun expo_down :: "nat \<Rightarrow> real \<Rightarrow> int" where
  "expo_down 0 x = 0"
| "expo_down (Suc n) x = (if x < 1 then expo_down n (2 * x) - 1 else 0)"

definition expo :: "real \<Rightarrow> int" where
  "expo x = (if 1 \<le> \<bar>x\<bar> then expo_up 1023 \<bar>x\<bar> else expo_down 1022 \<bar>x\<bar>)"

definition fl :: "real \<Rightarrow> real" where
  "fl x = (if x = 0 then 0
           else of_int (round_even (x / pow2 (expo x - 52))) * pow2 (expo x - 52))"

text \<open>Float addition, subtraction, multiplication and division of two floats.\<close>

definition fadd :: "real \<Rightarrow> real \<Rightarrow> real" where
  "fadd a b = fl (a + b)"

definition fsub :: "real \<Rightarrow> real \<Rightarrow> real" where
  "fsub a b = fl (a - b)"

definition fmul :: "real \<Rightarrow> real \<Rightarrow> real" where
  "fmul a b = fl (a * b)"

definition fdiv :: "real \<Rightarrow> real \<Rightarrow> real" where
  "fdiv a b = fl (a / b)"

text \<open>
  \<open>float(n)\<close>, the conversion Python applies to an \<open>int\<close> operand of a mixed operation, and
  \<open>a / b\<close> on two \<open>int\<close>s, which Python rounds once from the exact quotient. Every division
  of the scripts has a divisor that the caller has checked to be non-zero.
\<close>

definition float_of_int :: "int \<Rightarrow> real" where
  "float_of_int n = fl (of_int n)"

definition int_truediv :: "int \<Rightarrow> int \<Rightarrow> real" where
  "int_truediv a b = fl (of_int a / of_int b)"

text \<open>\<open>int(x)\<close> on a float truncates toward zero.\<close>

definition py_int :: "real \<Rightarrow> int" where
  "py_int x = (if 0 \<le> x then \<lfloor>x\<rfloor> else \<lceil>x\<rceil>)"

text \<open>The literal \<open>0.8\<close> is the binary64 value nearest to 8/10; \<open>1.5\<close> is exact.\<close>

definition lit_0_8 :: real where
  "lit_0_8 = fl (8 / 10)"

definition lit_1_5 :: real where
  "lit_1_5 = fl (15 / 10)"

datatype py_error = ZeroDivisionError | IndexError


section \<open>Images\<close>

text \<open>
  A PIL image is its size and its pixel buffer, addressed by \<open>(x, y)\<close> as \<open>pixels[x, y]\<close> is.
  The pixel type carries the mode: \<open>rgb\<close> for mode RGB, \<open>rgba\<close> for mode RGBA. Channel values
  are Python \<open>int\<close>s; an 8-bit image holds values from 0 to 255 (\<open>valid_rgb\<close>, \<open>valid_rgba\<close>).
\<close>

type_synonym rgb = "int \<times> int \<times> int"

type_synonym rgba = "int \<times> int \<times> int \<times> int"

record 'p image =
  width :: nat
  height :: nat
  px :: "nat \<times> nat \<Rightarrow> 'p"

definition valid_channel :: "int \<Rightarrow> bool" where
  "valid_channel c = (0 \<le> c \<and> c \<le> 255)"

definition valid_rgb :: "rgb \<Rightarrow> bool" where
  "valid_rgb p = (case p of (r, g, b) \<Rightarrow> valid_channel r \<and> valid_channel g \<and> valid_channel b)"

definition valid_rgba :: "rgba \<Rightarrow> bool" where
  "valid_rgba p = (case p of (r, g, b, a) \<Rightarrow>
     valid_channel r \<and> valid_channel g \<and> valid_channel b \<and> valid_channel a)"

text \<open>\<open>Image.new(mode, (w, h), color)\<close>; the colour defaults to black.\<close>

definition new_image :: "nat \<Rightarrow> nat \<Rightarrow> 'p \<Rightarrow> 'p image" where
  "new_image w h color = \<lparr>width = w, height = h, px = (\<lambda>_. color)\<rparr>"

text \<open>\<open>image.putpixel((x, y), v)\<close> and \<open>pixels[x, y] = v\<close>.\<close>

definition putpixel :: "'p image \<Rightarrow> nat \<times> nat \<Rightarrow> 'p \<Rightarrow> 'p image" where
  "putpixel img xy v = img\<lparr>px := (px img)(xy := v)\<rparr>"

text \<open>
  \<open>img.crop((left, upper, right, lower))\<close> and \<open>list(img.getdata())\<close>, which lists the pixels
  row by row. Every box the trimmer crops lies inside the image.
\<close>

definition crop :: "'p image \<Rightarrow> nat \<times> nat \<times> nat \<times> nat \<Rightarrow> 'p image" where
  "crop img box = (case box of (left, upper, right, lower) \<Rightarrow>
     \<lparr>width = right - left, height = lower - upper,
      px = (\<lambda>(x, y). px img (x + left, y + upper))\<rparr>)"

definition getdata :: "'p image \<Rightarrow> 'p list" where
  "getdata img = concat (map (\<lambda>y. map (\<lambda>x. px img (x, y)) [0..<width img]) [0..<height img])"

text \<open>
  \<open>canvas.paste(im, (bx, by))\<close> and \<open>canvas.paste(im, (bx, by), mask)\<close>: the pixels of the
  canvas inside the box of \<open>im\<close>'s size at \<open>(bx, by)\<close> are combined with the pixel of \<open>im\<close>
  that lands on them; the others are left as they are. Without a mask the pasted pixel
  replaces the old one. With the RGBA image itself as mask, PIL blends the two by the pasted
  pixel's alpha; that arithmetic belongs to PIL and is a parameter here.
\<close>

definition paste_with ::
  "('p \<Rightarrow> 'q \<Rightarrow> 'p) \<Rightarrow> 'p image \<Rightarrow> 'q image \<Rightarrow> int \<times> int \<Rightarrow> 'p image" where
  "paste_with combine canvas im box = (case box of (bx, by) \<Rightarrow>
     canvas\<lparr>px := (\<lambda>(x, y).
       if bx \<le> int x \<and> int x < bx + int (width im) \<and> by \<le> int y \<and> int y < by + int (height im)
       then combine (px canvas (x, y)) (px im (nat (int x - bx), nat (int y - by)))
       else px canvas (x, y))\<rparr>)"

definition paste :: "'p image \<Rightarrow> 'p image \<Rightarrow> int \<times> int \<Rightarrow> 'p image" where
  "paste canvas im box = paste_with (\<lambda>old new. new) canvas im box"

text \<open>\<open>convert('RGBA')\<close> of an RGB image adds an opaque alpha; \<open>convert('RGB')\<close> drops it.\<close>

definition convert_RGB_to_RGBA :: "rgb image \<Rightarrow> rgba image" where
  "convert_RGB_to_RGBA img =
     \<lparr>width = width img, height = height img,
      px = (\<lambda>xy. case px img xy of (r, g, b) \<Rightarrow> (r, g, b, 255))\<rparr>"

definition convert_RGBA_to_RGB :: "rgba image \<Rightarrow> rgb image" where
  "convert_RGBA_to_RGB img =
     \<lparr>width = width img, height = height img,
      px = (\<lambda>xy. case px img xy of (r, g, b, a) \<Rightarrow> (r, g, b))\<rparr>"


section \<open>create\_app\_icon.py\<close>

definition ICON_SIZE :: nat where
  "ICON_SIZE = 1024"

definition LOGO_SIZE :: nat where
  "LOGO_SIZE = 920"

definition GRADIENT_START :: rgb where
  "GRADIENT_START = (102, 126, 234)"

definition GRADIENT_END :: rgb where
  "GRADIENT_END = (118, 75, 162)"

subsection \<open>create\_gradient\<close>

text \<open>The body of the inner loop: the colour written at \<open>(x, y)\<close>.\<close>

definition gradient_channel :: "int \<Rightarrow> int \<Rightarrow> real \<Rightarrow> int" where
  "gradient_channel s e ratio =
     py_int (fadd (fmul (float_of_int s) (fsub (float_of_int 1) ratio))
                  (fmul (float_of_int e) ratio))"

definition gradient_pixel :: "nat \<Rightarrow> rgb \<Rightarrow> rgb \<Rightarrow> nat \<Rightarrow> nat \<Rightarrow> rgb" where
  "gradient_pixel sz start_color end_color x y =
     (case start_color of (s0, s1, s2) \<Rightarrow> case end_color of (e0, e1, e2) \<Rightarrow>
        let ratio = int_truediv (int x + int y) (2 * int sz);
            r = gradient_channel s0 e0 ratio;
            g = gradient_channel s1 e1 ratio;
            b = gradient_channel s2 e2 ratio
        in (r, g, b))"

definition create_gradient :: "nat \<Rightarrow> rgb \<Rightarrow> rgb \<Rightarrow> rgb image" where
  "create_gradient sz start_color end_color =
     fold (\<lambda>y image.
             fold (\<lambda>x image. putpixel image (x, y) (gradient_pixel sz start_color end_color x y))
                  [0..<sz] image)
          [0..<sz] (new_image sz sz (0, 0, 0))"

subsection \<open>The two recolouring passes\<close>

text \<open>
  Both functions first make the logo RGBA. A logo that is in another mode goes through PIL's
  \<open>convert('RGBA')\<close>, a parameter here.
\<close>

datatype 'o logo = Mode_RGBA "rgba image" | Mode_other 'o

definition as_RGBA :: "('o \<Rightarrow> rgba image) \<Rightarrow> 'o logo \<Rightarrow> rgba image" where
  "as_RGBA convert_RGBA logo =
     (case logo of Mode_RGBA img \<Rightarrow> img | Mode_other other \<Rightarrow> convert_RGBA other)"

text \<open>The \<open>for y ... for x ...\<close> loop that rewrites every pixel in place.\<close>

definition for_each_pixel :: "('p \<Rightarrow> 'p) \<Rightarrow> 'p image \<Rightarrow> 'p image" where
  "for_each_pixel body img =
     fold (\<lambda>y pixels. fold (\<lambda>x pixels. putpixel pixels (x, y) (body (px pixels (x, y))))
                            [0..<width img] pixels)
          [0..<height img] img"

definition blue_to_white_pixel :: "rgba \<Rightarrow> rgba" where
  "blue_to_white_pixel p = (case p of (r, g, b, a) \<Rightarrow>
     let brightness = int_truediv (r + g + b) 3
     in if brightness > 240 then (255, 255, 255, 0)
        else let opacity = py_int (fsub (float_of_int 255) brightness);
                 opacity = min 255 (py_int (fmul (float_of_int opacity) lit_1_5))
             in (255, 255, 255, opacity))"

definition convert_blue_to_white :: "('o \<Rightarrow> rgba image) \<Rightarrow> 'o logo \<Rightarrow> rgba image" where
  "convert_blue_to_white convert_RGBA logo =
     for_each_pixel blue_to_white_pixel (as_RGBA convert_RGBA logo)"

text \<open>
  \<open>max_diff\<close> and \<open>blue_intensity\<close> are computed by the source and never used; they are
  integer expressions that cannot fail, and are left out. \<open>min(255, x)\<close> on an \<open>int\<close> and a
  float returns the float when it is smaller and 255 otherwise.
\<close>

definition preserve_shape_pixel :: "rgba \<Rightarrow> rgba" where
  "preserve_shape_pixel p = (case p of (r, g, b, a) \<Rightarrow>
     let is_white_bg = (r > 245 \<and> g > 245 \<and> b > 245)
     in if is_white_bg then (0, 0, 0, 0)
        else let avg_diff = int_truediv (255 - r + 255 - g + 255 - b) 3;
                 doubled = fmul avg_diff (float_of_int 2);
                 opacity = py_int (if doubled < 255 then doubled else 255)
             in if opacity > 10 then (255, 255, 255, opacity) else (0, 0, 0, 0))"

definition convert_to_white_preserve_shape :: "('o \<Rightarrow> rgba image) \<Rightarrow> 'o logo \<Rightarrow> rgba image" where
  "convert_to_white_preserve_shape convert_RGBA logo =
     for_each_pixel preserve_shape_pixel (as_RGBA convert_RGBA logo)"

subsection \<open>main\<close>

text \<open>
  The operations of PIL that \<open>main\<close> calls and that are not modelled above:
  \<open>convert('RGBA')\<close> of a logo in another mode, \<open>thumbnail\<close> (Lanczos resampling in place)
  and the blend that \<open>paste\<close> applies under a mask.
\<close>

record 'o icon_pil =
  convert_RGBA :: "'o \<Rightarrow> rgba image"
  thumbnail :: "rgba image \<Rightarrow> nat \<times> nat \<Rightarrow> rgba image"
  blend :: "rgba \<Rightarrow> rgba \<Rightarrow> rgba"

text \<open>
  The argument is what is found at \<open>LOGO_PATH\<close> (\<open>None\<close> when the file is missing) and the
  result is the image saved at \<open>OUTPUT_PATH\<close> (\<open>None\<close> when \<open>main\<close> returns without saving).
\<close>

definition main :: "'o icon_pil \<Rightarrow> 'o logo option \<Rightarrow> rgb image option" where
  "main pil logo_file =
     (case logo_file of
        None \<Rightarrow> None
      | Some logo \<Rightarrow>
          let background = create_gradient ICON_SIZE GRADIENT_START GRADIENT_END;
              logo_white = convert_to_white_preserve_shape (convert_RGBA pil) logo;
              logo_white = thumbnail pil logo_white (LOGO_SIZE, LOGO_SIZE);
              logo_x = (int ICON_SIZE - int (width logo_white)) div 2;
              logo_y = (int ICON_SIZE - int (height logo_white)) div 2;
              background = convert_RGB_to_RGBA background;
              background = paste_with (blend pil) background logo_white (logo_x, logo_y);
              background = convert_RGBA_to_RGB background
          in Some background)"


section \<open>fix\_white\_space.py\<close>

text \<open>
  The file at \<open>image_path\<close> has contents of type \<open>'f\<close>. PIL reads it (\<open>Image.open\<close> followed by
  \<open>convert('RGB')\<close> when the mode is not RGB), writes it (\<open>save\<close>) and resamples
  (\<open>resize\<close> with the Lanczos filter); the three are parameters.
\<close>

record 'f trimmer_pil =
  open_RGB :: "'f \<Rightarrow> rgb image"
  save :: "rgb image \<Rightarrow> 'f"
  resize :: "rgb image \<Rightarrow> nat \<times> nat \<Rightarrow> rgb image"

text \<open>Lines 42 to 49: is the bottom row white? The caller has checked that the row is not empty.\<close>

definition all_above_250 :: "rgb \<Rightarrow> bool" where
  "all_above_250 p = (case p of (r, g, b) \<Rightarrow> r > 250 \<and> g > 250 \<and> b > 250)"

definition channel_sum :: "rgb \<Rightarrow> int" where
  "channel_sum p = (case p of (r, g, b) \<Rightarrow> r + g + b)"

definition bottom_is_white :: "rgb list \<Rightarrow> bool" where
  "bottom_is_white bottom_pixels =
     (let bottom_avg = int_truediv (sum_list (map channel_sum bottom_pixels))
                                   (int (length bottom_pixels) * 3);
          bottom_white = length (filter all_above_250 bottom_pixels);
          bottom_white_ratio = int_truediv (int bottom_white) (int (length bottom_pixels))
      in bottom_avg > 240 \<or> bottom_white_ratio > lit_0_8)"

text \<open>Lines 55 to 64: the test of one scanned row.\<close>

definition row_is_content :: "rgb list \<Rightarrow> bool" where
  "row_is_content row_pixels =
     (let avg_r = int_truediv (sum_list (map (\<lambda>(r, g, b). r) row_pixels)) (int (length row_pixels));
          avg_g = int_truediv (sum_list (map (\<lambda>(r, g, b). g) row_pixels)) (int (length row_pixels));
          avg_b = int_truediv (sum_list (map (\<lambda>(r, g, b). b) row_pixels)) (int (length row_pixels));
          avg_brightness = fdiv (fadd (fadd avg_r avg_g) avg_b) (float_of_int 3);
          white_count = length (filter all_above_250 row_pixels);
          white_ratio = int_truediv (int white_count) (int (length row_pixels))
      in avg_brightness < 240 \<and> white_ratio < lit_0_8)"

text \<open>\<open>range(start, stop, -1)\<close> for \<open>0 \<le> stop\<close>: \<open>start, start - 1, ..., stop + 1\<close>.\<close>

definition range_down :: "nat \<Rightarrow> nat \<Rightarrow> nat list" where
  "range_down start stop = rev [Suc stop..<Suc start]"

text \<open>The rows the loop of line 51 visits, in order.\<close>

definition scan_rows :: "nat \<Rightarrow> nat list" where
  "scan_rows h = range_down (h - 1) (max 0 (h - 100))"

text \<open>The loop of lines 51 to 66: the first row that passes the test sets \<open>content_bottom\<close>.\<close>

fun find_content_bottom :: "rgb image \<Rightarrow> nat list \<Rightarrow> nat option" where
  "find_content_bottom img [] = None"
| "find_content_bottom img (y # ys) =
     (if row_is_content (getdata (crop img (0, y, width img, y + 1))) then Some (y + 1)
      else find_content_bottom img ys)"

text \<open>Lines 87 to 91 and 94 to 98: the middle element of each sorted channel.\<close>

definition median_color :: "rgb list \<Rightarrow> py_error + rgb" where
  "median_color pixels =
     (let all_r = sort (map (\<lambda>(r, g, b). r) pixels);
          all_g = sort (map (\<lambda>(r, g, b). g) pixels);
          all_b = sort (map (\<lambda>(r, g, b). b) pixels);
          mid = length all_r div 2
      in if mid < length all_r then Inr (all_r ! mid, all_g ! mid, all_b ! mid)
         else Inl IndexError)"

text \<open>Line 83 and the branch of line 85.\<close>

definition bg_pixels_of :: "rgb list \<Rightarrow> rgb list" where
  "bg_pixels_of sample_pixels = filter (\<lambda>p. 50 < channel_sum p \<and> channel_sum p < 600) sample_pixels"

definition estimate_bg_color :: "rgb list \<Rightarrow> py_error + rgb" where
  "estimate_bg_color sample_pixels =
     (let bg_pixels = bg_pixels_of sample_pixels
      in if length bg_pixels > 50 then median_color bg_pixels else median_color sample_pixels)"

text \<open>Lines 78 to 80: the rows sampled above \<open>content_bottom\<close>.\<close>

definition sample_pixels_of :: "rgb image \<Rightarrow> nat \<Rightarrow> rgb list" where
  "sample_pixels_of img content_bottom =
     (let sample_start = max 0 (content_bottom - 20);
          sample_area = crop img (0, sample_start, width img, content_bottom)
      in getdata sample_area)"

text \<open>Lines 71 to 75 and 101 to 104: the image written back.\<close>

definition extended_image :: "rgb image \<Rightarrow> nat \<Rightarrow> nat \<Rightarrow> nat \<Rightarrow> rgb \<Rightarrow> rgb image" where
  "extended_image img target_width target_height content_bottom bg_color =
     (let new_img = new_image target_width target_height (0, 0, 0);
          content_img = crop img (0, 0, width img, content_bottom);
          new_img = paste new_img content_img (0, 0);
          fill_height = target_height - content_bottom;
          fill_img = new_image target_width fill_height bg_color
      in paste new_img fill_img (0, int content_bottom))"

text \<open>
  Lines 19 to 35: load and normalise. The result is the file as it is afterwards and the image
  the later phases work on.
\<close>

definition load_normalised :: "'f trimmer_pil \<Rightarrow> 'f \<Rightarrow> nat \<Rightarrow> nat \<Rightarrow> 'f \<times> rgb image" where
  "load_normalised pil file target_width target_height =
     (let img = open_RGB pil file
      in if width img \<noteq> target_width \<or> height img \<noteq> target_height
         then let file' = save pil (resize pil img (target_width, target_height))
              in (file', open_RGB pil file')
         else (file, img))"

text \<open>Lines 39 to 66: \<open>content_bottom\<close>, or the exception of line 44 on an empty row.\<close>

definition detect_content_bottom :: "rgb image \<Rightarrow> py_error + nat option" where
  "detect_content_bottom img =
     (let bottom_pixels = getdata (crop img (0, height img - 1, width img, height img))
      in if length bottom_pixels = 0 then Inl ZeroDivisionError
         else if bottom_is_white bottom_pixels
              then Inr (find_content_bottom img (scan_rows (height img)))
              else Inr None)"

text \<open>
  The whole function: the value returned (or the exception raised) and the file afterwards.
  \<open>if content_bottom and ...\<close> is false for \<open>None\<close> and for 0.
\<close>

definition remove_white_space ::
  "'f trimmer_pil \<Rightarrow> 'f \<Rightarrow> nat option \<Rightarrow> nat option \<Rightarrow> (py_error + bool) \<times> 'f" where
  "remove_white_space pil file target_width_arg target_height_arg =
     (let target_width = (case target_width_arg of None \<Rightarrow> 1242 | Some w \<Rightarrow> w);
          target_height = (case target_height_arg of None \<Rightarrow> 2688 | Some h \<Rightarrow> h);
          (file, img) = load_normalised pil file target_width target_height
      in case detect_content_bottom img of
           Inl err \<Rightarrow> (Inl err, file)
         | Inr None \<Rightarrow> (Inr False, file)
         | Inr (Some content_bottom) \<Rightarrow>
             if content_bottom \<noteq> 0 \<and> content_bottom < target_height
             then case estimate_bg_color (sample_pixels_of img content_bottom) of
                    Inl err \<Rightarrow> (Inl err, file)
                  | Inr bg_color \<Rightarrow>
                      if target_height - content_bottom > 0
                      then (Inr True,
                            save pil (extended_image img target_width target_height
                                        content_bottom bg_color))
                      else (Inr False, file)
             else (Inr False, file))"


section \<open>The formulas of the specification\<close>

text \<open>
  The specification states the gradient, the two opacities and the fill estimate in exact
  arithmetic. These definitions follow its words, to be compared with the functions above.
\<close>

definition interpolate :: "int \<Rightarrow> int \<Rightarrow> real \<Rightarrow> real" where
  "interpolate s e t = of_int s * (1 - t) + of_int e * t"

text \<open>
  "The linear interpolation of \<open>C_start\<close> and \<open>C_end\<close> with interpolation ratio
  \<open>t = (x + y) / (2N)\<close>, truncated to integer channel values."
\<close>

definition spec_gradient_pixel :: "nat \<Rightarrow> rgb \<Rightarrow> rgb \<Rightarrow> nat \<Rightarrow> nat \<Rightarrow> rgb" where
  "spec_gradient_pixel n c0 c1 x y =
     (case c0 of (s0, s1, s2) \<Rightarrow> case c1 of (e0, e1, e2) \<Rightarrow>
        let t = (real x + real y) / (2 * real n)
        in (py_int (interpolate s0 e0 t), py_int (interpolate s1 e1 t),
            py_int (interpolate s2 e2 t)))"

text \<open>"Every pixel's channel values lie between the corresponding channels of C0 and C1."\<close>

definition channel_between :: "int \<Rightarrow> int \<Rightarrow> int \<Rightarrow> bool" where
  "channel_between s e v = (min s e \<le> v \<and> v \<le> max s e)"

definition color_between :: "rgb \<Rightarrow> rgb \<Rightarrow> rgb \<Rightarrow> bool" where
  "color_between c0 c1 c =
     (case c0 of (s0, s1, s2) \<Rightarrow> case c1 of (e0, e1, e2) \<Rightarrow> case c of (r, g, b) \<Rightarrow>
        channel_between s0 e0 r \<and> channel_between s1 e1 g \<and> channel_between s2 e2 b)"

text \<open>
  "Within rounding": the channel is the truncated exact interpolation, or one below it where
  the exact interpolation is a whole number; it is then at most one below the interval of
  the two endpoints.
\<close>

definition channel_within_rounding :: "int \<Rightarrow> int \<Rightarrow> real \<Rightarrow> int \<Rightarrow> bool" where
  "channel_within_rounding s e t c =
     ((c = py_int (interpolate s e t) \<or>
       (c = py_int (interpolate s e t) - 1 \<and> interpolate s e t \<in> \<int>)) \<and>
      min s e - 1 \<le> c \<and> c \<le> max s e)"

definition color_within_rounding :: "nat \<Rightarrow> rgb \<Rightarrow> rgb \<Rightarrow> nat \<Rightarrow> nat \<Rightarrow> rgb \<Rightarrow> bool" where
  "color_within_rounding n c0 c1 x y c =
     (case c0 of (s0, s1, s2) \<Rightarrow> case c1 of (e0, e1, e2) \<Rightarrow> case c of (r, g, b) \<Rightarrow>
        let t = (real x + real y) / (2 * real n)
        in channel_within_rounding s0 e0 t r \<and> channel_within_rounding s1 e1 t g \<and>
           channel_within_rounding s2 e2 t b)"

text \<open>
  "Background when its brightness exceeds 240; background pixels map to transparent white;
  foreground pixels map to white with alpha = min(255, round((255 - brightness) * 1.5))."
\<close>

definition spec_blue_to_white_pixel :: "rgba \<Rightarrow> rgba" where
  "spec_blue_to_white_pixel p = (case p of (r, g, b, a) \<Rightarrow>
     let brightness = (of_int r + of_int g + of_int b) / (3 :: real)
     in if brightness > 240 then (255, 255, 255, 0)
        else (255, 255, 255, min 255 (round ((255 - brightness) * (3 / 2)))))"

text \<open>
  "Background when all three channels exceed 245; background is fully transparent, black;
  foreground pixels map to white with alpha = min(255, round(2 * average channel-deficit));
  any computed opacity \<open>\<le> 10\<close> is forced to 0."
\<close>

definition spec_preserve_shape_pixel :: "rgba \<Rightarrow> rgba" where
  "spec_preserve_shape_pixel p = (case p of (r, g, b, a) \<Rightarrow>
     if r > 245 \<and> g > 245 \<and> b > 245 then (0, 0, 0, 0)
     else let deficit = (of_int (255 - r) + of_int (255 - g) + of_int (255 - b)) / (3 :: real);
              opacity = min 255 (round (2 * deficit))
          in if opacity \<le> 10 then (0, 0, 0, 0) else (255, 255, 255, opacity))"


text \<open>
  "Every output pixel is either fully transparent or pure white with alpha strictly greater
  than 0."
\<close>

definition transparent_or_white :: "rgba \<Rightarrow> bool" where
  "transparent_or_white p = (case p of (r, g, b, a) \<Rightarrow>
     a = 0 \<or> (r = 255 \<and> g = 255 \<and> b = 255 \<and> a > 0))"

text \<open>
  "A pixel classified background": under the brightness-threshold policy, a pixel whose
  brightness, the unweighted mean of the three channels, exceeds 240; under the
  non-white-detection policy, a pixel whose three channels all exceed 245, or whose opacity
  \<open>min(255, floor(2 * average channel-deficit))\<close> is at most 10 and is treated as background.
\<close>

definition alpha :: "rgba \<Rightarrow> int" where
  "alpha p = (case p of (r, g, b, a) \<Rightarrow> a)"

definition brightness_background :: "rgba \<Rightarrow> bool" where
  "brightness_background p = (case p of (r, g, b, a) \<Rightarrow>
     (of_int r + of_int g + of_int b) / (3 :: real) > 240)"

definition non_white_background :: "rgba \<Rightarrow> bool" where
  "non_white_background p = (case p of (r, g, b, a) \<Rightarrow>
     (r > 245 \<and> g > 245 \<and> b > 245) \<or>
     min 255 \<lfloor>2 * ((of_int (255 - r) + of_int (255 - g) + of_int (255 - b)) / (3 :: real))\<rfloor>
       \<le> 10)"


text \<open>
  "The per-channel median": a value of the channel with at most half of the values strictly
  below it and at most half strictly above it.
\<close>

definition is_median :: "int list \<Rightarrow> int \<Rightarrow> bool" where
  "is_median xs m =
     (m \<in> set xs \<and> 2 * length (filter (\<lambda>x. x < m) xs) \<le> length xs
      \<and> 2 * length (filter (\<lambda>x. m < x) xs) \<le> length xs)"


text \<open>
  "The logo is pasted at offset (canvas_dim - logo_dim) floor-divided by 2 on each axis", and
  the bounding box of an image of a given size pasted at a given offset.
\<close>

definition centre_offset :: "nat \<Rightarrow> nat \<Rightarrow> int" where
  "centre_offset canvas_dim logo_dim = (int canvas_dim - int logo_dim) div 2"

definition in_box :: "int \<times> int \<Rightarrow> nat \<times> nat \<Rightarrow> nat \<times> nat \<Rightarrow> bool" where
  "in_box offset sz xy = (case offset of (bx, by) \<Rightarrow> case sz of (w, h) \<Rightarrow> case xy of (x, y) \<Rightarrow>
     bx \<le> int x \<and> int x < bx + int w \<and> by \<le> int y \<and> int y < by + int h)"


section \<open>Example inputs\<close>

text \<open>A logo of two pixels, one of the design's blue-grey and one of the white background.\<close>

definition two_pixel_logo :: "unit logo" where
  "two_pixel_logo =
     Mode_RGBA \<lparr>width = 2, height = 1,
                px = (\<lambda>(x, y). if x = 0 then (200, 200, 201, 255) else (255, 255, 255, 255))\<rparr>"


text \<open>
  For running \<open>main\<close>: a logo of one pixel, a \<open>thumbnail\<close> that leaves a logo that already
  fits as it is, and integer alpha-over blending in place of PIL's (the canvas pixel keeps
  its own alpha).
\<close>

definition single_pixel_logo :: "rgba \<Rightarrow> unit logo" where
  "single_pixel_logo p =
     Mode_RGBA \<lparr>width = 1, height = 1, px = (\<lambda>xy. if xy = (0, 0) then p else (0, 0, 0, 0))\<rparr>"

definition blend_over :: "rgba \<Rightarrow> rgba \<Rightarrow> rgba" where
  "blend_over old new = (case old of (r, g, b, a) \<Rightarrow> case new of (nr, ng, nb, na) \<Rightarrow>
     ((nr * na + r * (255 - na)) div 255, (ng * na + g * (255 - na)) div 255,
      (nb * na + b * (255 - na)) div 255, a))"

definition example_icon_pil :: "unit icon_pil" where
  "example_icon_pil =
     \<lparr>convert_RGBA = (\<lambda>_. new_image 0 0 (0, 0, 0, 0)), thumbnail = (\<lambda>img sz. img),
      blend = blend_over\<rparr>"

text \<open>
  For running the trimmer: the file holds an RGB image as it is (a PNG round trip), and a
  nearest-neighbour resampler stands in for PIL's Lanczos filter. Only the size of what
  \<open>resize\<close> returns matters in what follows.
\<close>

definition resize_nearest :: "rgb image \<Rightarrow> nat \<times> nat \<Rightarrow> rgb image" where
  "resize_nearest img sz = (case sz of (w, h) \<Rightarrow>
     \<lparr>width = w, height = h,
      px = (\<lambda>(x, y). px img (x * width img div w, y * height img div h))\<rparr>)"

definition png_pil :: "rgb image trimmer_pil" where
  "png_pil = \<lparr>open_RGB = (\<lambda>f. f), save = (\<lambda>img. img), resize = resize_nearest\<rparr>"

text \<open>Images one pixel wide, given by their rows from the top.\<close>

definition column_image :: "rgb list \<Rightarrow> rgb image" where
  "column_image rows = \<lparr>width = 1, height = length rows, px = (\<lambda>(x, y). rows ! y)\<rparr>"

definition grey_over_white :: "rgb image" where
  "grey_over_white = column_image [(100, 100, 100), (255, 255, 255)]"

definition black_240_white :: "rgb image" where
  "black_240_white = column_image [(0, 0, 0), (0, 0, 0), (240, 240, 240), (255, 255, 255)]"

definition one_grey_pixel :: "rgb image" where
  "one_grey_pixel = column_image [(100, 100, 100)]"



section \<open>Rounding: exact cases and the error bound\<close>

lemma pow2_powr: "pow2 e = 2 powr (of_int e)"
proof (cases "0 \<le> e")
  case True
  then show ?thesis by (simp add: pow2_def powr_realpow [symmetric])
next
  case False
  then have "real_of_int e = - real (nat (- e))" by simp
  then have "2 powr (of_int e) = 1 / 2 powr (real (nat (- e)))"
    by (simp only: powr_minus_divide)
  also have "\<dots> = 1 / 2 ^ nat (- e)" by (simp only: powr_realpow zero_less_numeral)
  finally show ?thesis using False by (simp add: pow2_def)
qed

lemma pow2_pos [simp]: "0 < pow2 e"
  by (simp add: pow2_powr)

lemma pow2_nonzero [simp]: "pow2 e \<noteq> 0"
  using pow2_pos [of e] by (simp del: pow2_pos)

lemma pow2_not_le_0 [simp]: "\<not> pow2 e \<le> 0"
  by (simp add: not_le)

lemma pow2_nonneg [simp]: "0 \<le> pow2 e"
  by (rule less_imp_le [OF pow2_pos])

lemma pow2_add: "pow2 (a + b) = pow2 a * pow2 b"
  by (simp add: pow2_powr powr_add)

lemma pow2_0 [simp]: "pow2 0 = 1"
  by (simp add: pow2_def)

lemma pow2_1 [simp]: "pow2 1 = 2"
  by (simp add: pow2_def)

lemma pow2_pred: "pow2 (e - 1) = pow2 e / 2"
  using pow2_add [of "e - 1" 1] by simp

lemma pow2_mono: "a \<le> b \<Longrightarrow> pow2 a \<le> pow2 b"
  by (simp add: pow2_powr)

lemma pow2_less_cancel: "pow2 a < pow2 b \<Longrightarrow> a < b"
  by (simp add: pow2_powr)

lemma pow2_nat: "pow2 (int n) = 2 ^ n"
  by (simp add: pow2_def)

lemma pow2_neg_nat: "pow2 (- int n) = 1 / 2 ^ n"
proof -
  have "pow2 (- int n) * pow2 (int n) = 1"
    using pow2_add [of "- int n" "int n"] by simp
  then show ?thesis by (simp add: pow2_nat field_simps)
qed

lemma round_even_of_int [simp]: "round_even (of_int n) = n"
  by (simp add: round_even_def)

lemma round_even_error: "\<bar>of_int (round_even y) - y\<bar> \<le> 1 / 2"
proof -
  have "of_int \<lfloor>y\<rfloor> \<le> y" "y < of_int \<lfloor>y\<rfloor> + 1" by linarith+
  then show ?thesis
    by (auto simp: round_even_def Let_def)
qed

lemma expo_up_lower: "1 \<le> x \<Longrightarrow> pow2 (expo_up n x) \<le> x"
proof (induction n arbitrary: x)
  case 0
  then show ?case by simp
next
  case (Suc n)
  show ?case
  proof (cases "2 \<le> x")
    case True
    then have "pow2 (expo_up n (x / 2)) \<le> x / 2" using Suc.IH [of "x / 2"] by simp
    with True show ?thesis by (simp add: pow2_add [of 1])
  next
    case False
    with Suc.prems show ?thesis by simp
  qed
qed

lemma expo_down_lower_or_floor:
  "0 < x \<Longrightarrow> x < 1 \<Longrightarrow> expo_down n x = - int n \<or> pow2 (expo_down n x) \<le> x"
proof (induction n arbitrary: x)
  case 0
  then show ?case by simp
next
  case (Suc n)
  show ?case
  proof (cases "2 * x < 1")
    case True
    with Suc.prems have "expo_down n (2 * x) = - int n \<or> pow2 (expo_down n (2 * x)) \<le> 2 * x"
      using Suc.IH [of "2 * x"] by simp
    with Suc.prems show ?thesis by (auto simp: pow2_pred)
  next
    case False
    with Suc.prems show ?thesis by (cases n) (simp_all add: pow2_pred pow2_def)
  qed
qed

lemma expo_down_ge: "- int n \<le> expo_down n x"
proof (induction n arbitrary: x)
  case 0
  then show ?case by simp
next
  case (Suc n)
  from Suc [of "2 * x"] show ?case by simp
qed

lemma expo_lower_or_floor: "x \<noteq> 0 \<Longrightarrow> expo x = - 1022 \<or> pow2 (expo x) \<le> \<bar>x\<bar>"
proof (cases "1 \<le> \<bar>x\<bar>")
  case True
  then show ?thesis by (simp add: expo_def expo_up_lower)
next
  case False
  assume "x \<noteq> 0"
  with False have "0 < \<bar>x\<bar>" "\<bar>x\<bar> < 1" by simp_all
  from expo_down_lower_or_floor [OF this, of 1022] False show ?thesis
    by (simp add: expo_def)
qed

lemma expo_ge: "- 1022 \<le> expo x"
proof (cases "1 \<le> \<bar>x\<bar>")
  case True
  then have "pow2 (expo x) \<le> \<bar>x\<bar>" by (simp add: expo_def expo_up_lower)
  have "0 \<le> expo_up n y" for n y by (induction n arbitrary: y) auto
  from this [of 1023 "\<bar>x\<bar>"] True show ?thesis by (simp add: expo_def)
next
  case False
  with expo_down_ge [of 1022 "\<bar>x\<bar>"] show ?thesis by (simp add: expo_def)
qed

lemma fl_exact:
  assumes x: "x = of_int m * pow2 k" and m: "\<bar>m\<bar> < 2 ^ 53" and k: "- 1074 \<le> k"
  shows "fl x = x"
proof (cases "x = 0")
  case True
  then show ?thesis by (simp add: fl_def)
next
  case False
  define e where "e = expo x - 52"
  have "e \<le> k"
  proof -
    from expo_lower_or_floor [OF False] show ?thesis
    proof
      assume "expo x = - 1022"
      with k show ?thesis by (simp add: e_def)
    next
      assume le: "pow2 (expo x) \<le> \<bar>x\<bar>"
      have "\<bar>x\<bar> = of_int \<bar>m\<bar> * pow2 k" by (simp add: x abs_mult abs_of_pos)
      also have "\<dots> < 2 ^ 53 * pow2 k"
      proof -
        from m have "real_of_int \<bar>m\<bar> < 2 ^ 53"
          by (metis of_int_less_iff of_int_numeral of_int_power)
        then show ?thesis by simp
      qed
      also have "\<dots> = pow2 (53 + k)" using pow2_add [of 53 k] by (simp add: pow2_def)
      finally have "pow2 (expo x) < pow2 (53 + k)" using le by simp
      then have "expo x < 53 + k" by (rule pow2_less_cancel)
      then show ?thesis by (simp add: e_def)
    qed
  qed
  then have "pow2 k = pow2 e * of_int (2 ^ nat (k - e))"
    using pow2_add [of e "k - e"] by (simp add: pow2_def)
  then have "x / pow2 e = of_int (m * 2 ^ nat (k - e))"
    by (simp add: x)
  then have "round_even (x / pow2 e) = m * 2 ^ nat (k - e)"
    by (simp only: round_even_of_int)
  then have "fl x = of_int (m * 2 ^ nat (k - e)) * pow2 e"
    using False by (simp add: fl_def e_def)
  also have "\<dots> = x" using \<open>x / pow2 e = of_int (m * 2 ^ nat (k - e))\<close>
    by (simp add: field_simps)
  finally show ?thesis .
qed

lemma fl_of_int: "\<bar>n\<bar> < 2 ^ 53 \<Longrightarrow> fl (of_int n) = of_int n"
  using fl_exact [of "of_int n" n 0] by simp

lemma fl_error:
  assumes "pow2 (- 1022) \<le> \<bar>x\<bar>"
  shows "\<bar>fl x - x\<bar> \<le> \<bar>x\<bar> / 2 ^ 53"
proof -
  from assms have nz: "x \<noteq> 0" by auto
  define u where "u = pow2 (expo x - 52)"
  have u: "0 < u" by (simp add: u_def)
  have le: "pow2 (expo x) \<le> \<bar>x\<bar>"
  proof -
    from expo_lower_or_floor [OF nz] show ?thesis
    proof
      assume "expo x = - 1022"
      with assms show ?thesis by simp
    qed
  qed
  have "fl x - x = u * (of_int (round_even (x / u)) - x / u)"
    using nz u by (simp add: fl_def u_def field_simps)
  then have "\<bar>fl x - x\<bar> = u * \<bar>of_int (round_even (x / u)) - x / u\<bar>"
    using u by (simp add: abs_mult)
  also have "\<dots> \<le> u * (1 / 2)"
    using u round_even_error [of "x / u"] by (intro mult_left_mono) simp_all
  also have "u = pow2 (expo x) / 2 ^ 52"
    using pow2_add [of "expo x" "- 52"] by (simp add: u_def pow2_def)
  also have "pow2 (expo x) / 2 ^ 52 * (1 / 2) = pow2 (expo x) / 2 ^ 53" by simp
  also have "\<dots> \<le> \<bar>x\<bar> / 2 ^ 53" using le by (simp add: divide_right_mono)
  finally show ?thesis .
qed

text \<open>Unfolding the exponent search on a numeral bound, for evaluating \<open>fl\<close> on a given number.\<close>

lemma expo_up_numeral:
  "expo_up (numeral k) x = (if 2 \<le> x then 1 + expo_up (pred_numeral k) (x / 2) else 0)"
  by (simp add: numeral_eq_Suc)

lemma expo_down_numeral:
  "expo_down (numeral k) x = (if x < 1 then expo_down (pred_numeral k) (2 * x) - 1 else 0)"
  by (simp add: numeral_eq_Suc)

lemmas fl_eval =
  fl_def expo_def expo_up_numeral expo_down_numeral round_even_def pow2_def Let_def
  fadd_def fsub_def fmul_def fdiv_def float_of_int_def int_truediv_def py_int_def
  lit_0_8_def lit_1_5_def

lemma pow2_m1022_le: "pow2 (- 1022) \<le> 1 / 4"
proof -
  have "pow2 (- 1022) \<le> pow2 (- 2)" by (rule pow2_mono) simp
  then show ?thesis by (simp add: pow2_def)
qed

lemma fl_near:
  assumes "1 / 4 \<le> x" and "x \<le> 1024"
  shows "\<bar>fl x - x\<bar> \<le> 1 / 2 ^ 43"
proof -
  from assms pow2_m1022_le have "pow2 (- 1022) \<le> \<bar>x\<bar>" by linarith
  then have "\<bar>fl x - x\<bar> \<le> \<bar>x\<bar> / 2 ^ 53" by (rule fl_error)
  also have "\<dots> \<le> 1024 / 2 ^ 53" using assms by (simp add: divide_right_mono)
  also have "\<dots> = 1 / 2 ^ 43" by simp
  finally show ?thesis .
qed

lemma fl_near_milli:
  assumes "1 / 4 \<le> x" and "x \<le> 1024"
  shows "\<bar>fl x - x\<bar> \<le> 1 / 1000"
proof -
  have "(1 :: real) / 2 ^ 43 \<le> 1 / 1000" by simp
  with fl_near [OF assms] show ?thesis by linarith
qed

lemma float_of_int_small: "\<bar>n\<bar> \<le> 1024 \<Longrightarrow> float_of_int n = of_int n"
  unfolding float_of_int_def by (rule fl_of_int) simp

lemma fl_half_int: "\<bar>n\<bar> \<le> 4096 \<Longrightarrow> fl (of_int n / 2) = of_int n / 2"
  using fl_exact [of "of_int n / 2" n "- 1"] by (simp add: pow2_def)

lemma lit_1_5_eq: "lit_1_5 = 3 / 2"
  using fl_half_int [of 3] by (simp add: lit_1_5_def)

lemma py_int_nonneg: "0 \<le> x \<Longrightarrow> py_int x = \<lfloor>x\<rfloor>"
  by (simp add: py_int_def)

text \<open>Dividing a small non-negative int by 3: exact on multiples, else within \<open>2^-43\<close>.\<close>

lemma truediv_3_exact:
  assumes "0 \<le> q" and "q \<le> 1024"
  shows "int_truediv (3 * q) 3 = of_int q"
proof -
  have "fl (of_int q) = of_int q" using assms by (intro fl_of_int) simp
  then show ?thesis by (simp add: int_truediv_def)
qed

lemma truediv_3_near:
  assumes "1 \<le> s" and "s \<le> 3072"
  shows "\<bar>int_truediv s 3 - of_int s / 3\<bar> \<le> 1 / 1000"
  using fl_near_milli [of "of_int s / 3"] assms by (simp add: int_truediv_def)

lemma floor_between: "of_int n \<le> x \<Longrightarrow> x < of_int n + 1 \<Longrightarrow> \<lfloor>x\<rfloor> = n" for x :: real
  by linarith

lemma brightness_gt_240:
  assumes "0 \<le> s" and "s \<le> 765"
  shows "int_truediv s 3 > 240 \<longleftrightarrow> s > 720"
proof (cases "s mod 3 = 0")
  case True
  then obtain q where q: "s = 3 * q" by auto
  with assms have "int_truediv s 3 = of_int q" by (simp add: truediv_3_exact)
  with q show ?thesis by auto
next
  case False
  with assms have "1 \<le> s" by (cases "s = 0") auto
  with assms have near: "\<bar>int_truediv s 3 - of_int s / 3\<bar> \<le> 1 / 1000"
    by (intro truediv_3_near) simp_all
  show ?thesis
  proof
    assume "240 < int_truediv s 3"
    with near have "of_int s / 3 > (239 :: real)" by linarith
    then have "real_of_int s > 717" by simp
    then have "s > 717" by linarith
    moreover have "s \<noteq> 720" using False by auto
    moreover have "\<not> (s = 718 \<or> s = 719)"
    proof
      assume "s = 718 \<or> s = 719"
      then have "of_int s / 3 \<le> (240 :: real) - 1 / 3" by auto
      with near \<open>240 < int_truediv s 3\<close> show False by linarith
    qed
    ultimately show "720 < s" by linarith
  next
    assume "720 < s"
    then have "721 \<le> s" by simp
    then have "real_of_int s \<ge> 721" by linarith
    then have "of_int s / 3 \<ge> (240 :: real) + 1 / 3" by simp
    with near show "240 < int_truediv s 3" by linarith
  qed
qed

lemma inverse_brightness:
  assumes "0 \<le> s" and "s \<le> 720"
  shows "py_int (fsub (float_of_int 255) (int_truediv s 3)) = (765 - s) div 3"
proof (cases "s mod 3 = 0")
  case True
  then obtain q where q: "s = 3 * q" by auto
  with assms have b: "int_truediv s 3 = of_int q" by (simp add: truediv_3_exact)
  have "fl (of_int (255 - q)) = of_int (255 - q)"
    using assms q by (intro fl_of_int) simp
  then have "fsub (float_of_int 255) (int_truediv s 3) = of_int (255 - q)"
    by (simp add: fsub_def float_of_int_small b)
  moreover have "(765 - s) div 3 = 255 - q" using q by simp
  ultimately show ?thesis using assms q by (simp add: py_int_def)
next
  case False
  define q where "q = s div 3"
  define f where "f = s mod 3"
  have s: "s = 3 * q + f" by (simp add: q_def f_def)
  have f: "f = 1 \<or> f = 2" using False by (auto simp: f_def)
  from assms s f have q: "0 \<le> q" "q \<le> 239" by auto
  from assms False have "1 \<le> s" by (cases "s = 0") auto
  with assms have near: "\<bar>int_truediv s 3 - of_int s / 3\<bar> \<le> 1 / 1000"
    by (intro truediv_3_near) simp_all
  define t where "t = 255 - int_truediv s 3"
  have sr: "real_of_int s / 3 = of_int q + of_int f / 3" by (simp add: s)
  have "of_int f / 3 \<ge> (1 :: real) / 3" "of_int f / 3 \<le> (2 :: real) / 3"
    using f by auto
  with sr have "of_int q + 1 / 3 \<le> real_of_int s / 3" "real_of_int s / 3 \<le> of_int q + 2 / 3"
    by linarith+
  with near have b: "of_int q + 1 / 3 - 1 / 1000 \<le> int_truediv s 3"
    "int_truediv s 3 \<le> of_int q + 2 / 3 + 1 / 1000"
    by linarith+
  have t_lo: "of_int (254 - q) + 1 / 3 - 1 / 1000 \<le> t"
    using b by (simp add: t_def)
  have t_hi: "t \<le> of_int (254 - q) + 2 / 3 + 1 / 1000"
    using b by (simp add: t_def)
  have "1 / 4 \<le> t" "t \<le> 1024" using t_lo t_hi q by simp_all
  then have "\<bar>fl t - t\<bar> \<le> 1 / 1000" by (rule fl_near_milli)
  with t_lo t_hi have "of_int (254 - q) \<le> fl t" "fl t < of_int (254 - q) + 1"
    by linarith+
  then have "\<lfloor>fl t\<rfloor> = 254 - q" by (rule floor_between)
  moreover have "0 \<le> fl t" using \<open>of_int (254 - q) \<le> fl t\<close> q by simp
  moreover have "(765 - s) div 3 = 254 - q" using s f by auto
  ultimately show ?thesis
    by (simp add: py_int_def fsub_def float_of_int_small t_def)
qed

lemma boost_opacity:
  assumes "0 \<le> n" and "n \<le> 255"
  shows "py_int (fmul (float_of_int n) lit_1_5) = (3 * n) div 2"
proof -
  have "fl (of_int (3 * n) / 2) = of_int (3 * n) / 2"
    using assms by (intro fl_half_int) simp
  moreover have "of_int n * (3 / 2 :: real) = of_int (3 * n) / 2" by simp
  moreover have "fmul (float_of_int n) lit_1_5 = fl (of_int n * (3 / 2))"
    using assms by (simp add: fmul_def float_of_int_small lit_1_5_eq)
  ultimately have v: "fmul (float_of_int n) lit_1_5 = of_int (3 * n) / 2"
    by (simp only:)
  have "\<lfloor>real_of_int (3 * n) / 2\<rfloor> = (3 * n) div 2"
    by (metis floor_divide_of_int_eq of_int_numeral)
  moreover have "(0 :: real) \<le> of_int (3 * n) / 2" using assms by simp
  ultimately show ?thesis unfolding v py_int_def by (simp only: if_True)
qed

lemma blue_to_white_pixel_value:
  assumes "valid_rgba (r, g, b, a)"
  shows "blue_to_white_pixel (r, g, b, a) =
           (if r + g + b > 720 then (255, 255, 255, 0)
            else (255, 255, 255, min 255 ((3 * ((765 - (r + g + b)) div 3)) div 2)))"
proof -
  from assms have s: "0 \<le> r + g + b" "r + g + b \<le> 765"
    by (auto simp: valid_rgba_def valid_channel_def)
  show ?thesis
  proof (cases "r + g + b > 720")
    case True
    with s show ?thesis by (simp add: blue_to_white_pixel_def brightness_gt_240)
  next
    case False
    with s have s720: "r + g + b \<le> 720" by simp
    define n where "n = (765 - (r + g + b)) div 3"
    have n: "0 \<le> n" "n \<le> 255" using s by (auto simp: n_def)
    have "py_int (fsub (float_of_int 255) (int_truediv (r + g + b) 3)) = n"
      using s s720 by (simp add: inverse_brightness n_def)
    moreover have "py_int (fmul (float_of_int n) lit_1_5) = (3 * n) div 2"
      using n by (rule boost_opacity)
    moreover have "\<not> int_truediv (r + g + b) 3 > 240"
      using False s by (simp add: brightness_gt_240)
    ultimately show ?thesis
      unfolding blue_to_white_pixel_def prod.case Let_def n_def using False
      by (simp only: if_False)
  qed
qed

lemma doubled_deficit:
  assumes "0 \<le> d" and "d \<le> 765"
  shows "py_int (let doubled = fmul (int_truediv d 3) (float_of_int 2)
                 in if doubled < 255 then doubled else 255) = min 255 ((2 * d) div 3)"
proof (cases "d mod 3 = 0")
  case True
  then obtain q where q: "d = 3 * q" by auto
  with assms have a: "int_truediv d 3 = of_int q" by (simp add: truediv_3_exact)
  have "fl (of_int (2 * q)) = of_int (2 * q)" using assms q by (intro fl_of_int) simp
  moreover have "of_int q * (2 :: real) = of_int (2 * q)" by simp
  ultimately have v: "fmul (int_truediv d 3) (float_of_int 2) = of_int (2 * q)"
    by (simp only: fmul_def a float_of_int_small [of 2, simplified] of_int_numeral)
  have "(2 * d) div 3 = 2 * q" using q by simp
  moreover have "0 \<le> 2 * q" using assms q by simp
  ultimately show ?thesis unfolding v Let_def py_int_def
    by (cases "2 * q < 255") (simp_all del: of_int_mult)
next
  case False
  define q where "q = d div 3"
  define f where "f = d mod 3"
  define n where "n = (2 * d) div 3"
  have d: "d = 3 * q + f" by (simp add: q_def f_def)
  have f: "f = 1 \<or> f = 2" using False by (auto simp: f_def)
  from assms d f have q: "0 \<le> q" "q \<le> 254" by auto
  have n: "0 \<le> n" "n \<le> 510" using assms by (auto simp: n_def)
  from assms False have "1 \<le> d" by (cases "d = 0") auto
  with assms have near: "\<bar>int_truediv d 3 - of_int d / 3\<bar> \<le> 1 / 1000"
    by (intro truediv_3_near) simp_all
  define a where "a = int_truediv d 3"
  have "real_of_int d / 3 \<ge> 1 / 3" "real_of_int d / 3 \<le> 255"
    using assms \<open>1 \<le> d\<close> by simp_all
  with near have a_rng: "1 / 4 \<le> a * 2" "a * 2 \<le> 1024" unfolding a_def by linarith+
  then have "\<bar>fl (a * 2) - a * 2\<bar> \<le> 1 / 1000" by (rule fl_near_milli)
  with near have dd: "\<bar>fl (a * 2) - 2 * of_int d / 3\<bar> \<le> 3 / 1000"
    unfolding a_def by linarith
  have "2 * d = 3 * n + 1 \<or> 2 * d = 3 * n + 2"
    unfolding n_def using False by presburger
  then have "real_of_int (2 * d) = of_int (3 * n + 1) \<or> real_of_int (2 * d) = of_int (3 * n + 2)"
    by (simp only: of_int_eq_iff)
  then have "2 * real_of_int d = 3 * of_int n + 1 \<or> 2 * real_of_int d = 3 * of_int n + 2"
    by simp
  then have "of_int n + 1 / 3 \<le> 2 * real_of_int d / 3" "2 * real_of_int d / 3 \<le> of_int n + 2 / 3"
    by auto
  with dd have lo: "of_int n + 33 / 100 \<le> fl (a * 2)" and hi: "fl (a * 2) \<le> of_int n + 67 / 100"
    by linarith+
  then have fl_n: "\<lfloor>fl (a * 2)\<rfloor> = n" by (intro floor_between) linarith+
  have nonneg: "0 \<le> fl (a * 2)" using lo n by linarith
  have v: "fmul (int_truediv d 3) (float_of_int 2) = fl (a * 2)"
    by (simp add: fmul_def a_def float_of_int_small)
  show ?thesis
  proof (cases "n < 255")
    case True
    then have "real_of_int n \<le> 254" by linarith
    with hi have "fl (a * 2) < 255" by linarith
    with fl_n nonneg True show ?thesis unfolding v Let_def py_int_def n_def [symmetric]
      by simp
  next
    case False
    then have "real_of_int n \<ge> 255" by linarith
    with lo have "\<not> fl (a * 2) < 255" by linarith
    with False show ?thesis unfolding v Let_def py_int_def n_def [symmetric]
      by simp
  qed
qed

lemma preserve_shape_pixel_value:
  assumes "valid_rgba (r, g, b, a)"
  shows "preserve_shape_pixel (r, g, b, a) =
           (if r > 245 \<and> g > 245 \<and> b > 245 then (0, 0, 0, 0)
            else let opacity = min 255 ((2 * (255 - r + 255 - g + 255 - b)) div 3)
                 in if opacity > 10 then (255, 255, 255, opacity) else (0, 0, 0, 0))"
proof -
  define d where "d = 255 - r + 255 - g + 255 - b"
  from assms have "0 \<le> d" "d \<le> 765"
    by (auto simp: valid_rgba_def valid_channel_def d_def)
  then have "py_int (let doubled = fmul (int_truediv d 3) (float_of_int 2)
                     in if doubled < 255 then doubled else 255) = min 255 ((2 * d) div 3)"
    by (rule doubled_deficit)
  moreover have "preserve_shape_pixel (r, g, b, a) =
      (if r > 245 \<and> g > 245 \<and> b > 245 then (0, 0, 0, 0)
       else let opacity = py_int (let doubled = fmul (int_truediv d 3) (float_of_int 2)
                                  in if doubled < 255 then doubled else 255)
            in if opacity > 10 then (255, 255, 255, opacity) else (0, 0, 0, 0))"
    unfolding d_def preserve_shape_pixel_def by (simp only: prod.case Let_def)
  ultimately show ?thesis unfolding d_def by (simp only:)
qed


section \<open>The pixel loops\<close>

lemma putpixel_simps [simp]:
  "width (putpixel img xy v) = width img"
  "height (putpixel img xy v) = height img"
  "px (putpixel img xy v) = (px img)(xy := v)"
  by (simp_all add: putpixel_def)

lemma fold_row:
  "fold (\<lambda>x im. putpixel im (x, y) (h x y (px im (x, y)))) [0..<n] img =
     img\<lparr>px := (\<lambda>(x', y'). if y' = y \<and> x' < n then h x' y (px img (x', y')) else px img (x', y'))\<rparr>"
proof (induction n)
  case 0
  then show ?case by simp
next
  case (Suc n)
  let ?F = "\<lambda>x im. putpixel im (x, y) (h x y (px im (x, y)))"
  have "fold ?F [0..<Suc n] img = ?F n (fold ?F [0..<n] img)" by simp
  also have "\<dots> = ?F n (img\<lparr>px := (\<lambda>(x', y'). if y' = y \<and> x' < n then h x' y (px img (x', y'))
                                             else px img (x', y'))\<rparr>)"
    by (simp only: Suc)
  also have "\<dots> = img\<lparr>px := (\<lambda>(x', y'). if y' = y \<and> x' < Suc n then h x' y (px img (x', y'))
                                       else px img (x', y'))\<rparr>"
    by (auto simp: putpixel_def fun_eq_iff less_Suc_eq)
  finally show ?case .
qed

lemma fold_rows:
  "fold (\<lambda>y im. fold (\<lambda>x im. putpixel im (x, y) (h x y (px im (x, y)))) [0..<w] im) [0..<m] img =
     img\<lparr>px := (\<lambda>(x', y'). if y' < m \<and> x' < w then h x' y' (px img (x', y')) else px img (x', y'))\<rparr>"
proof (induction m)
  case 0
  then show ?case by simp
next
  case (Suc m)
  let ?R = "\<lambda>y im. fold (\<lambda>x im. putpixel im (x, y) (h x y (px im (x, y)))) [0..<w] im"
  have "fold ?R [0..<Suc m] img = ?R m (fold ?R [0..<m] img)" by simp
  also have "\<dots> = ?R m (img\<lparr>px := (\<lambda>(x', y'). if y' < m \<and> x' < w then h x' y' (px img (x', y'))
                                             else px img (x', y'))\<rparr>)"
    by (simp only: Suc)
  also have "\<dots> = img\<lparr>px := (\<lambda>(x', y'). if y' < Suc m \<and> x' < w then h x' y' (px img (x', y'))
                                       else px img (x', y'))\<rparr>"
    by (auto simp: fold_row fun_eq_iff less_Suc_eq)
  finally show ?case .
qed

lemma for_each_pixel_eq:
  "for_each_pixel body img =
     img\<lparr>px := (\<lambda>(x, y). if y < height img \<and> x < width img then body (px img (x, y))
                          else px img (x, y))\<rparr>"
  unfolding for_each_pixel_def by (rule fold_rows [where h = "\<lambda>x y v. body v"])

lemma create_gradient_eq:
  "create_gradient sz c0 c1 =
     \<lparr>width = sz, height = sz,
      px = (\<lambda>(x, y). if y < sz \<and> x < sz then gradient_pixel sz c0 c1 x y else (0, 0, 0))\<rparr>"
  unfolding create_gradient_def
  by (simp add: fold_rows [where h = "\<lambda>x y v. gradient_pixel sz c0 c1 x y"] new_image_def fun_eq_iff)


section \<open>The gradient on exact ratios\<close>

lemma fl_dyadic:
  assumes "0 \<le> m" and "m \<le> 255 * 2 ^ K" and "K \<le> 41"
  shows "fl (of_int m / 2 ^ K) = of_int m / 2 ^ K"
proof -
  have "(2 :: int) ^ K \<le> 2 ^ 41" using assms(3) by (intro power_increasing) simp_all
  with assms have "\<bar>m\<bar> < 2 ^ 53" by simp
  with assms(3) show ?thesis
    using fl_exact [of "real_of_int m / 2 ^ K" m "- int K"] by (simp add: pow2_neg_nat)
qed

lemma fl_0 [simp]: "fl 0 = 0"
  by (simp add: fl_def)

lemma fl_1 [simp]: "fl 1 = 1"
  using fl_of_int [of 1] by simp

lemma fl_small_int: "\<bar>n\<bar> \<le> 1024 \<Longrightarrow> fl (of_int n) = of_int n"
  by (rule fl_of_int) simp

lemma fl_dyadic_value:
  assumes "x = of_int m / 2 ^ K" and "0 \<le> m" and "m \<le> 255 * 2 ^ K" and "K \<le> 41"
  shows "fl x = x"
  unfolding assms(1) using assms(2-4) by (rule fl_dyadic)

lemma gradient_channel_dyadic:
  assumes s: "valid_channel s" and e: "valid_channel e"
    and j: "j < 2 ^ K" and K: "K \<le> 41"
  shows "gradient_channel s e (real j / 2 ^ K) = py_int (interpolate s e (real j / 2 ^ K))"
proof -
  define M :: int where "M = 2 ^ K"
  define t :: real where "t = real j / 2 ^ K"
  have M: "real_of_int M = 2 ^ K" by (simp add: M_def)
  have jM: "0 \<le> int j" "int j < M" using j by (simp_all add: M_def)
  have Mj: "0 \<le> M - int j" "M - int j \<le> 255 * M" using jM by simp_all
  from s e have se: "0 \<le> s" "s \<le> 255" "0 \<le> e" "e \<le> 255"
    by (simp_all add: valid_channel_def)
  have fs: "float_of_int s = of_int s" and fe: "float_of_int e = of_int e"
    and f1: "float_of_int 1 = 1"
    using se float_of_int_small [of s] float_of_int_small [of e] float_of_int_small [of 1]
    by simp_all
  have "fl (1 - t) = 1 - t"
  proof (rule fl_dyadic_value)
    show "1 - t = of_int (M - int j) / 2 ^ K" by (simp add: t_def M field_simps)
  qed (use Mj K in \<open>simp_all add: M_def\<close>)
  then have one_minus: "fsub (float_of_int 1) t = 1 - t"
    by (simp only: fsub_def f1)
  have "fl (of_int s * (1 - t)) = of_int s * (1 - t)"
  proof (rule fl_dyadic_value)
    show "of_int s * (1 - t) = of_int (s * (M - int j)) / 2 ^ K"
      by (simp add: t_def M field_simps)
    show "0 \<le> s * (M - int j)" using se jM by simp
    have "s * (M - int j) \<le> 255 * M" using se jM by (intro mult_mono) simp_all
    then show "s * (M - int j) \<le> 255 * 2 ^ K" by (simp only: M_def)
  qed (rule K)
  then have left: "fmul (float_of_int s) (fsub (float_of_int 1) t) = of_int s * (1 - t)"
    by (simp only: fmul_def fs one_minus)
  have "fl (of_int e * t) = of_int e * t"
  proof (rule fl_dyadic_value)
    show "of_int e * t = of_int (e * int j) / 2 ^ K" by (simp add: t_def)
    show "0 \<le> e * int j" using se jM by simp
    have "e * int j \<le> 255 * M" using se jM by (intro mult_mono) simp_all
    then show "e * int j \<le> 255 * 2 ^ K" by (simp only: M_def)
  qed (rule K)
  then have right: "fmul (float_of_int e) t = of_int e * t"
    by (simp only: fmul_def fe)
  have "fl (of_int s * (1 - t) + of_int e * t) = of_int s * (1 - t) + of_int e * t"
  proof (rule fl_dyadic_value)
    show "of_int s * (1 - t) + of_int e * t = of_int (s * (M - int j) + e * int j) / 2 ^ K"
      by (simp add: t_def M field_simps)
    show "0 \<le> s * (M - int j) + e * int j" using se jM by simp
    have "s * (M - int j) + e * int j \<le> 255 * (M - int j) + 255 * int j"
      using se jM by (intro add_mono mult_right_mono) simp_all
    then have "s * (M - int j) + e * int j \<le> 255 * M" by simp
    then show "s * (M - int j) + e * int j \<le> 255 * 2 ^ K" by (simp only: M_def)
  qed (rule K)
  then have total: "fadd (of_int s * (1 - t)) (of_int e * t) = of_int s * (1 - t) + of_int e * t"
    by (simp only: fadd_def)
  show ?thesis
    unfolding gradient_channel_def t_def [symmetric] left right total interpolate_def ..
qed

lemma interpolate_between:
  assumes "0 \<le> t" and "t \<le> 1"
  shows "channel_between s e (py_int (interpolate s e t))"
proof -
  define v where "v = interpolate s e t"
  have v: "v = of_int s + (of_int e - of_int s) * t"
    by (simp add: v_def interpolate_def algebra_simps)
  have "of_int (min s e) \<le> v \<and> v \<le> of_int (max s e)"
  proof (cases "s \<le> e")
    case True
    then have d: "0 \<le> real_of_int e - of_int s" by simp
    with assms have "0 \<le> (real_of_int e - of_int s) * t" by simp
    moreover have "(real_of_int e - of_int s) * t \<le> of_int e - of_int s"
      using mult_left_le [OF assms(2) d] .
    ultimately have "of_int s \<le> v" "v \<le> of_int e" unfolding v by linarith+
    with True show ?thesis by (simp add: min_def max_def)
  next
    case False
    then have d: "0 \<le> real_of_int s - of_int e" by simp
    with assms have "0 \<le> (real_of_int s - of_int e) * t" by simp
    moreover have "(real_of_int s - of_int e) * t \<le> of_int s - of_int e"
      using mult_left_le [OF assms(2) d] .
    moreover have "v = of_int s - (of_int s - of_int e) * t" by (simp add: v algebra_simps)
    ultimately have "of_int e \<le> v" "v \<le> of_int s" by linarith+
    with False show ?thesis by (simp add: min_def max_def)
  qed
  then have "min s e \<le> \<lfloor>v\<rfloor>" "\<lceil>v\<rceil> \<le> max s e" "\<lfloor>v\<rfloor> \<le> max s e" "min s e \<le> \<lceil>v\<rceil>"
    by (simp_all add: le_floor_iff ceiling_le_iff floor_le_iff le_ceiling_iff)
  then show ?thesis
    unfolding channel_between_def v_def [symmetric] py_int_def by simp
qed

lemma gradient_channel_origin:
  assumes "valid_channel s" and "valid_channel e"
  shows "gradient_channel s e 0 = s"
proof -
  from assms have "\<bar>s\<bar> \<le> 1024" "\<bar>e\<bar> \<le> 1024" "0 \<le> s" by (simp_all add: valid_channel_def)
  then show ?thesis
    by (simp add: gradient_channel_def float_of_int_def fsub_def fmul_def fadd_def
        fl_small_int py_int_def)
qed

lemma gradient_pixel_origin:
  assumes "valid_rgb c0" and "valid_rgb c1"
  shows "gradient_pixel n c0 c1 0 0 = c0"
proof -
  obtain s0 s1 s2 e0 e1 e2 where c: "c0 = (s0, s1, s2)" "c1 = (e0, e1, e2)"
    by (metis prod_cases3)
  have "int_truediv 0 (2 * int n) = 0" by (simp add: int_truediv_def)
  with assms show ?thesis
    by (simp add: c gradient_pixel_def valid_rgb_def gradient_channel_origin)
qed

lemma gradient_pixel_dyadic:
  assumes "valid_rgb c0" and "valid_rgb c1" and "k \<le> 40" and "x < 2 ^ k" and "y < 2 ^ k"
  shows "gradient_pixel (2 ^ k) c0 c1 x y = spec_gradient_pixel (2 ^ k) c0 c1 x y"
proof -
  obtain s0 s1 s2 e0 e1 e2 where c: "c0 = (s0, s1, s2)" "c1 = (e0, e1, e2)"
    by (metis prod_cases3)
  define K where "K = Suc k"
  define j where "j = x + y"
  have K: "K \<le> 41" using assms(3) by (simp add: K_def)
  have j: "j < 2 ^ K" using assms(4,5) by (simp add: K_def j_def)
  have t: "(real x + real y) / (2 * real ((2 :: nat) ^ k)) = real j / 2 ^ K"
    by (simp add: K_def j_def)
  have "int j < int (2 ^ K)" using j by (simp only: of_nat_less_iff)
  then have "int j < 2 ^ K" by simp
  moreover have "(0 :: int) \<le> 2 ^ K" by simp
  ultimately have "int j \<le> 255 * 2 ^ K" by linarith
  then have "fl (of_int (int j) / 2 ^ K) = of_int (int j) / 2 ^ K"
    using K by (intro fl_dyadic) simp_all
  moreover have "of_int (int x + int y) / real_of_int (2 * int ((2 :: nat) ^ k)) = of_int (int j) / 2 ^ K"
    by (simp add: K_def j_def)
  ultimately have ratio: "int_truediv (int x + int y) (2 * int (2 ^ k)) = real j / 2 ^ K"
    by (simp only: int_truediv_def)
  from assms(1,2) show ?thesis
    unfolding gradient_pixel_def spec_gradient_pixel_def c prod.case Let_def ratio t
    by (simp add: valid_rgb_def gradient_channel_dyadic [OF _ _ j K])
qed

lemma spec_gradient_pixel_between:
  assumes "0 < n" and "x < n" and "y < n"
  shows "color_between c0 c1 (spec_gradient_pixel n c0 c1 x y)"
proof -
  obtain s0 s1 s2 e0 e1 e2 where c: "c0 = (s0, s1, s2)" "c1 = (e0, e1, e2)"
    by (metis prod_cases3)
  define t where "t = (real x + real y) / (2 * real n)"
  have "0 \<le> t" "t \<le> 1" using assms by (simp_all add: t_def)
  then show ?thesis
    unfolding spec_gradient_pixel_def c prod.case Let_def t_def [symmetric] color_between_def
    by (simp add: interpolate_between)
qed


section \<open>The gradient under rounding\<close>

lemma fl_error_le:
  assumes "\<bar>x\<bar> \<le> B" and "pow2 (- 1022) \<le> B"
  shows "\<bar>fl x - x\<bar> \<le> B / 2 ^ 53"
proof (cases "x = 0")
  case True
  with assms show ?thesis by simp
next
  case False
  define u where "u = pow2 (expo x - 52)"
  have u: "0 < u" by (simp add: u_def)
  have le: "pow2 (expo x) \<le> B"
    using expo_lower_or_floor [OF False] assms by auto
  have "fl x - x = u * (of_int (round_even (x / u)) - x / u)"
    using False u by (simp add: fl_def u_def field_simps)
  then have "\<bar>fl x - x\<bar> = u * \<bar>of_int (round_even (x / u)) - x / u\<bar>"
    using u by (simp add: abs_mult)
  also have "\<dots> \<le> u * (1 / 2)"
    using u round_even_error [of "x / u"] by (intro mult_left_mono) simp_all
  also have "u = pow2 (expo x) / 2 ^ 52"
    using pow2_add [of "expo x" "- 52"] by (simp add: u_def pow2_def)
  also have "pow2 (expo x) / 2 ^ 52 * (1 / 2) = pow2 (expo x) / 2 ^ 53" by simp
  also have "\<dots> \<le> B / 2 ^ 53" using le by (simp add: divide_right_mono)
  finally show ?thesis .
qed

lemma round_even_nonneg: "0 \<le> y \<Longrightarrow> 0 \<le> round_even y"
  by (auto simp: round_even_def Let_def)

lemma fl_nonneg:
  assumes "0 \<le> x"
  shows "0 \<le> fl x"
proof -
  have "0 \<le> x / pow2 (expo x - 52)"
    using assms by (intro divide_nonneg_pos pow2_pos)
  then have "0 \<le> round_even (x / pow2 (expo x - 52))" by (rule round_even_nonneg)
  then have "0 \<le> real_of_int (round_even (x / pow2 (expo x - 52))) * pow2 (expo x - 52)"
    by (intro mult_nonneg_nonneg) simp_all
  then show ?thesis by (simp add: fl_def)
qed

lemma abs_mult_le:
  fixes a b c :: real
  assumes "\<bar>c\<bar> \<le> C" and "\<bar>a - b\<bar> \<le> d"
  shows "\<bar>c * a - c * b\<bar> \<le> C * d"
proof -
  have "\<bar>c * a - c * b\<bar> = \<bar>c\<bar> * \<bar>a - b\<bar>"
    by (simp add: abs_mult [symmetric] right_diff_distrib)
  also have "\<dots> \<le> C * d"
    using assms by (intro mult_mono) simp_all
  finally show ?thesis .
qed

lemma gradient_channel_error:
  assumes s: "valid_channel s" and e: "valid_channel e"
    and t: "0 \<le> t" "t \<le> 1 - 1 / 2 ^ 41"
  shows "\<exists>F. 0 \<le> F \<and> gradient_channel s e (fl t) = py_int F
           \<and> \<bar>F - interpolate s e t\<bar> \<le> 1 / 2 ^ 41"
proof -
  define u :: real where "u = 1 / 2 ^ 53"
  have u: "u = 1 / 9007199254740992" by (simp add: u_def)
  have small: "pow2 (- 1022) \<le> 1" "pow2 (- 1022) \<le> 2" "pow2 (- 1022) \<le> 512"
    using pow2_m1022_le by simp_all
  from s e have se: "0 \<le> s" "s \<le> 255" "0 \<le> e" "e \<le> 255"
    by (simp_all add: valid_channel_def)
  have fs: "float_of_int s = of_int s" and fe: "float_of_int e = of_int e"
    and f1: "float_of_int 1 = 1"
    using se float_of_int_small [of s] float_of_int_small [of e] float_of_int_small [of 1]
    by simp_all
  define r where "r = fl t"
  define a where "a = fl (1 - r)"
  define p1 where "p1 = fl (of_int s * a)"
  define p2 where "p2 = fl (of_int e * r)"
  define F where "F = fl (p1 + p2)"
  define v where "v = interpolate s e t"
  have sr: "\<bar>real_of_int s\<bar> \<le> 255" "\<bar>real_of_int e\<bar> \<le> 255"
    "0 \<le> real_of_int s" "0 \<le> real_of_int e" using se by simp_all
  have t41: "(1 :: real) / 2 ^ 41 = 4096 * u" by (simp add: u)
  have r_err: "\<bar>r - t\<bar> \<le> u"
    using fl_error_le [of t 1] t small unfolding r_def u_def by simp
  have r0: "0 \<le> r" unfolding r_def using t by (intro fl_nonneg)
  have r1: "r \<le> 1" using r_err t t41 u by linarith
  have a_err0: "\<bar>a - (1 - r)\<bar> \<le> 2 * u"
    using fl_error_le [of "1 - r" 2] r0 r1 small unfolding a_def u_def by simp
  have a_err: "\<bar>a - (1 - t)\<bar> \<le> 3 * u" using a_err0 r_err by linarith
  have a0: "0 \<le> a" unfolding a_def using r1 by (intro fl_nonneg) simp
  have a2: "a \<le> 2" using a_err t u by linarith
  have x1: "\<bar>of_int s * a - of_int s * (1 - t)\<bar> \<le> 255 * (3 * u)"
    using sr(1) a_err by (rule abs_mult_le)
  have x1_rng: "0 \<le> of_int s * a" "of_int s * a \<le> 512"
  proof -
    show "0 \<le> of_int s * a" using sr a0 by simp
    have "of_int s * a \<le> 255 * 2" using sr a0 a2 by (intro mult_mono) simp_all
    then show "of_int s * a \<le> 512" by simp
  qed
  have p1_err0: "\<bar>p1 - of_int s * a\<bar> \<le> 512 * u"
    using fl_error_le [of "of_int s * a" 512] x1_rng small unfolding p1_def u_def by simp
  have p1_err: "\<bar>p1 - of_int s * (1 - t)\<bar> \<le> 1277 * u" using p1_err0 x1 by linarith
  have p1_0: "0 \<le> p1" unfolding p1_def using x1_rng by (intro fl_nonneg)
  have x2: "\<bar>of_int e * r - of_int e * t\<bar> \<le> 255 * u"
    using sr(2) r_err by (rule abs_mult_le)
  have x2_rng: "0 \<le> of_int e * r" "of_int e * r \<le> 512"
  proof -
    show "0 \<le> of_int e * r" using sr r0 by simp
    have "of_int e * r \<le> 255 * 1" using sr r0 r1 by (intro mult_mono) simp_all
    then show "of_int e * r \<le> 512" by simp
  qed
  have p2_err0: "\<bar>p2 - of_int e * r\<bar> \<le> 512 * u"
    using fl_error_le [of "of_int e * r" 512] x2_rng small unfolding p2_def u_def by simp
  have p2_err: "\<bar>p2 - of_int e * t\<bar> \<le> 767 * u" using p2_err0 x2 by linarith
  have p2_0: "0 \<le> p2" unfolding p2_def using x2_rng by (intro fl_nonneg)
  have v: "v = of_int s * (1 - t) + of_int e * t" by (simp add: v_def interpolate_def)
  have v_rng: "v \<le> 255"
  proof -
    define A where "A = real_of_int s * (1 - t)"
    define B where "B = real_of_int e * t"
    have "0 \<le> 1 - t" using t by simp
    then have "A \<le> 255 * (1 - t)"
      unfolding A_def using se by (intro mult_right_mono) simp_all
    moreover have "B \<le> 255 * t"
      unfolding B_def using se t by (intro mult_right_mono) simp_all
    ultimately have "A + B \<le> 255 * (1 - t) + 255 * t" by (intro add_mono)
    also have "\<dots> = 255" by (simp add: algebra_simps)
    finally show ?thesis by (simp add: v A_def B_def)
  qed
  have sum_err: "\<bar>p1 + p2 - v\<bar> \<le> 2044 * u" using p1_err p2_err unfolding v by linarith
  have sum_rng: "\<bar>p1 + p2\<bar> \<le> 512" using sum_err v_rng p1_0 p2_0 u by linarith
  have F_err0: "\<bar>F - (p1 + p2)\<bar> \<le> 512 * u"
    using fl_error_le [of "p1 + p2" 512] sum_rng small unfolding F_def u_def by simp
  have "\<bar>F - v\<bar> \<le> 4096 * u" using F_err0 sum_err u by linarith
  then have "\<bar>F - interpolate s e t\<bar> \<le> 1 / 2 ^ 41" by (simp only: t41 v_def)
  moreover have "0 \<le> F" unfolding F_def using p1_0 p2_0 by (intro fl_nonneg) simp
  moreover have "gradient_channel s e (fl t) = py_int F"
    by (simp only: gradient_channel_def fs fe f1 fsub_def fmul_def fadd_def
        F_def p1_def p2_def a_def r_def)
  ultimately show ?thesis by blast
qed

lemma gradient_channel_within_rounding:
  assumes s: "valid_channel s" and e: "valid_channel e"
    and n: "0 < n" "n \<le> 2 ^ 32" and j: "j < 2 * n - 1"
  shows "channel_within_rounding s e (real j / (2 * real n))
           (gradient_channel s e (fl (real j / (2 * real n))))"
proof -
  define D :: real where "D = 2 * real n"
  define t where "t = real j / D"
  define v where "v = interpolate s e t"
  define m :: int where "m = s * (2 * int n - int j) + e * int j"
  define T where "T = m div (2 * int n)"
  define k where "k = m mod (2 * int n)"
  from s e have se: "0 \<le> s" "s \<le> 255" "0 \<le> e" "e \<le> 255"
    by (simp_all add: valid_channel_def)
  have D: "0 < D" "D \<le> 2 ^ 33" "1 \<le> D"
  proof -
    show "0 < D" using n by (simp add: D_def)
    have "real n \<le> 2 ^ 32" using n(2) by (metis of_nat_le_iff of_nat_numeral of_nat_power)
    then show "D \<le> 2 ^ 33" by (simp add: D_def)
    have "1 \<le> real n" using n(1) by simp
    then show "1 \<le> D" by (simp add: D_def)
  qed
  have invD: "1 / 2 ^ 33 \<le> 1 / D" using D by (intro divide_left_mono) simp_all
  have jD: "real j + 2 \<le> D"
  proof -
    have "j + 2 \<le> 2 * n" using j by simp
    then have "real (j + 2) \<le> real (2 * n)" by (simp only: of_nat_le_iff)
    then show ?thesis by (simp add: D_def)
  qed
  have t0: "0 \<le> t" using D by (simp add: t_def)
  have t1: "t \<le> 1 - 1 / D"
  proof -
    have "real j \<le> D - 1" using jD by simp
    then have "real j / D \<le> (D - 1) / D" using D by (intro divide_right_mono) simp_all
    also have "\<dots> = 1 - 1 / D" using D by (simp add: field_simps)
    finally show ?thesis by (simp add: t_def)
  qed
  have tle1: "t \<le> 1"
  proof -
    have "0 \<le> 1 / D" using D by simp
    with t1 show ?thesis by linarith
  qed
  have t41: "t \<le> 1 - 1 / 2 ^ 41"
  proof -
    have "(1 :: real) / 2 ^ 41 \<le> 1 / 2 ^ 33" by simp
    with invD t1 show ?thesis by linarith
  qed
  from gradient_channel_error [OF s e t0 t41] obtain F where
    F: "0 \<le> F" "gradient_channel s e (fl t) = py_int F" "\<bar>F - v\<bar> \<le> 1 / 2 ^ 41"
    unfolding v_def by blast
  have delta: "(1 :: real) / 2 ^ 41 < 1 / 2 ^ 33" by simp
  have Fb: "F - v \<le> 1 / 2 ^ 41" "- (F - v) \<le> 1 / 2 ^ 41"
    using F(3) by (rule abs_le_D1, rule abs_le_D2)
  have vm: "v = real_of_int m / D"
    using D by (simp add: v_def interpolate_def t_def m_def D_def field_simps)
  have m_split: "m = T * (2 * int n) + k" by (simp only: T_def k_def div_mult_mod_eq)
  have k_rng: "0 \<le> k" "k < 2 * int n" using n by (simp_all add: k_def)
  have "real_of_int m = of_int T * D + of_int k"
    by (simp add: m_split D_def)
  then have vT: "v = of_int T + of_int k / D"
    using D by (simp add: vm field_simps)
  have v0: "0 \<le> v"
    using se t0 tle1 unfolding v_def interpolate_def
    by (intro add_nonneg_nonneg mult_nonneg_nonneg) simp_all
  have btw: "channel_between s e (py_int v)"
    unfolding v_def using t0 tle1 by (rule interpolate_between)
  have res: "gradient_channel s e (fl t) = \<lfloor>F\<rfloor>" using F by (simp add: py_int_def)
  have pv: "py_int v = \<lfloor>v\<rfloor>" using v0 by (simp add: py_int_def)
  show ?thesis
  proof (cases "k = 0")
    case True
    then have vint: "v = of_int T" by (simp add: vT)
    have "\<lfloor>v\<rfloor> = T" by (simp add: vint)
    with pv have "py_int v = T" by (simp only:)
    moreover have "\<lfloor>F\<rfloor> = T - 1 \<or> \<lfloor>F\<rfloor> = T"
    proof -
      have "(1 :: real) / 2 ^ 41 < 1" by simp
      with Fb vint have "real_of_int T - 1 \<le> F" "F < real_of_int T + 1" by linarith+
      then have "T - 1 \<le> \<lfloor>F\<rfloor>" "\<lfloor>F\<rfloor> < T + 1"
        by (simp_all add: le_floor_iff floor_le_iff)
      then show ?thesis by linarith
    qed
    moreover have "v \<in> \<int>" by (simp add: vint)
    ultimately show ?thesis
      using btw unfolding channel_within_rounding_def channel_between_def res
        t_def [symmetric] D_def [symmetric] v_def [symmetric]
      by auto
  next
    case False
    with k_rng have "1 \<le> k" "k \<le> 2 * int n - 1" by simp_all
    then have "1 \<le> real_of_int k" "real_of_int k \<le> D - 1"
      unfolding D_def by (simp_all add: of_int_le_iff [symmetric] del: of_int_le_iff)
    then have "1 / D \<le> of_int k / D" "of_int k / D \<le> (D - 1) / D"
      using D by (simp_all add: divide_right_mono)
    moreover have "(D - 1) / D = 1 - 1 / D" using D by (simp add: field_simps)
    ultimately have "of_int T + 1 / D \<le> v" "v \<le> of_int T + 1 - 1 / D"
      unfolding vT by linarith+
    moreover have "0 < 1 / D" using D by simp
    ultimately have "of_int T \<le> F" "F < of_int T + 1" "of_int T \<le> v" "v < of_int T + 1"
      using Fb invD delta by linarith+
    then have "\<lfloor>F\<rfloor> = T" "\<lfloor>v\<rfloor> = T" by (simp_all add: floor_unique)
    then show ?thesis
      using btw pv unfolding channel_within_rounding_def channel_between_def res
        t_def [symmetric] D_def [symmetric] v_def [symmetric]
      by auto
  qed
qed

lemma gradient_pixel_within_rounding:
  assumes "valid_rgb c0" and "valid_rgb c1" and "0 < n" and "n \<le> 2 ^ 32"
    and "x < n" and "y < n"
  shows "color_within_rounding n c0 c1 x y (gradient_pixel n c0 c1 x y)"
proof -
  obtain s0 s1 s2 e0 e1 e2 where c: "c0 = (s0, s1, s2)" "c1 = (e0, e1, e2)"
    by (metis prod_cases3)
  have j: "x + y < 2 * n - 1" using assms(5,6) by simp
  have ratio: "int_truediv (int x + int y) (2 * int n) = fl ((real x + real y) / (2 * real n))"
    by (simp add: int_truediv_def)
  have ch: "channel_within_rounding s e ((real x + real y) / (2 * real n))
              (gradient_channel s e (fl ((real x + real y) / (2 * real n))))"
    if "valid_channel s" "valid_channel e" for s e
    using gradient_channel_within_rounding [OF that assms(3,4) j] by simp
  from assms(1,2) show ?thesis
    unfolding gradient_pixel_def color_within_rounding_def c prod.case Let_def ratio
    by (simp add: valid_rgb_def ch)
qed


section \<open>The gradient generator\<close>

text \<open>
  Claim C6, amended. The claim asks, for every size and every pair of colours, that each pixel
  of the gradient is the exact interpolation at \<open>t = (x + y) / (2N)\<close> truncated, that pixel
  (0, 0) is \<open>C0\<close>, and that no channel leaves the interval of its two endpoints. The source
  computes the interpolation in binary64, and the four roundings can bring a value that is a
  whole number in exact arithmetic just below it (\<open>create_gradient_rounding_counterexample\<close>).
  What holds, for 8-bit colours: pixel (0, 0) is \<open>C0\<close> for every size \<open>N \<ge> 1\<close>; for every
  size up to \<open>2^32\<close> each channel of each pixel is the truncated exact interpolation, or one
  below it where the exact interpolation is a whole number, so that it is never above the
  interval of its endpoints and at most one below it; and when the size is a power of two
  (the script uses 1024), every ratio and every product is exact, each pixel is the truncated
  exact interpolation and lies between the endpoints.
\<close>

theorem create_gradient_within_rounding:
  assumes "valid_rgb c0" and "valid_rgb c1"
  shows "(1 \<le> n \<longrightarrow> px (create_gradient n c0 c1) (0, 0) = c0) \<and>
         (1 \<le> n \<and> n \<le> 2 ^ 32 \<and> x < n \<and> y < n \<longrightarrow>
            color_within_rounding n c0 c1 x y (px (create_gradient n c0 c1) (x, y))) \<and>
         (k \<le> 40 \<and> x < 2 ^ k \<and> y < 2 ^ k \<longrightarrow>
            px (create_gradient (2 ^ k) c0 c1) (x, y) = spec_gradient_pixel (2 ^ k) c0 c1 x y \<and>
            color_between c0 c1 (px (create_gradient (2 ^ k) c0 c1) (x, y)))"
proof (intro conjI impI)
  assume "1 \<le> n"
  then show "px (create_gradient n c0 c1) (0, 0) = c0"
    using assms by (simp add: create_gradient_eq gradient_pixel_origin)
next
  assume "1 \<le> n \<and> n \<le> 2 ^ 32 \<and> x < n \<and> y < n"
  then show "color_within_rounding n c0 c1 x y (px (create_gradient n c0 c1) (x, y))"
    using assms by (simp add: create_gradient_eq gradient_pixel_within_rounding)
next
  assume a: "k \<le> 40 \<and> x < 2 ^ k \<and> y < 2 ^ k"
  then have eq: "px (create_gradient (2 ^ k) c0 c1) (x, y) = spec_gradient_pixel (2 ^ k) c0 c1 x y"
    using assms by (simp add: create_gradient_eq gradient_pixel_dyadic)
  then show "px (create_gradient (2 ^ k) c0 c1) (x, y) = spec_gradient_pixel (2 ^ k) c0 c1 x y" .
  show "color_between c0 c1 (px (create_gradient (2 ^ k) c0 c1) (x, y))"
    unfolding eq using a by (intro spec_gradient_pixel_between) simp_all
qed

text \<open>The witness: the shipped configuration, at its first and its last pixel.\<close>

theorem create_gradient_within_rounding_witness:
  "valid_rgb GRADIENT_START \<and> valid_rgb GRADIENT_END \<and>
   px (create_gradient ICON_SIZE GRADIENT_START GRADIENT_END) (0, 0) = (102, 126, 234) \<and>
   px (create_gradient ICON_SIZE GRADIENT_START GRADIENT_END) (1023, 1023) = (117, 75, 162)"
proof -
  have v: "valid_rgb GRADIENT_START" "valid_rgb GRADIENT_END"
    by (simp_all add: valid_rgb_def valid_channel_def GRADIENT_START_def GRADIENT_END_def)
  have "spec_gradient_pixel (2 ^ 10) GRADIENT_START GRADIENT_END 1023 1023 = (117, 75, 162)"
    by (simp add: spec_gradient_pixel_def GRADIENT_START_def GRADIENT_END_def interpolate_def
        py_int_def)
  with v create_gradient_within_rounding [OF v, where n = 1024 and k = 10 and x = 1023 and y = 1023]
  show ?thesis by (simp add: ICON_SIZE_def GRADIENT_START_def)
qed

text \<open>
  The counterexample: size 5, both endpoints (102, 102, 102), pixel (3, 0). The ratio is the
  binary64 nearest to 3/10, \<open>1 - ratio\<close> is 0.69999999999999995559, the two products
  round to 71.399999999999991473 and 30.599999999999997868, and their sum rounds to
  101.99999999999998579, which \<open>int\<close> truncates to 101.
\<close>

theorem create_gradient_rounding_counterexample:
  "px (create_gradient 5 (102, 102, 102) (102, 102, 102)) (3, 0) = (101, 101, 101) \<and>
   spec_gradient_pixel 5 (102, 102, 102) (102, 102, 102) 3 0 = (102, 102, 102) \<and>
   \<not> color_between (102, 102, 102) (102, 102, 102)
       (px (create_gradient 5 (102, 102, 102) (102, 102, 102)) (3, 0))"
proof -
  have "gradient_pixel 5 (102, 102, 102) (102, 102, 102) 3 0 = (101, 101, 101)"
    apply (simp only: gradient_pixel_def gradient_channel_def prod.case Let_def)
    apply (simp add: fl_eval)
    done
  then have "px (create_gradient 5 (102, 102, 102) (102, 102, 102)) (3, 0) = (101, 101, 101)"
    by (simp add: create_gradient_eq)
  moreover have "spec_gradient_pixel 5 (102, 102, 102) (102, 102, 102) 3 0 = (102, 102, 102)"
    by (simp add: spec_gradient_pixel_def interpolate_def py_int_def)
  ultimately show ?thesis by (simp add: color_between_def channel_between_def)
qed


section \<open>The logo recolorizer\<close>

lemma floor_div_real: "\<lfloor>real_of_int a / of_int b\<rfloor> = a div b"
  by (rule floor_divide_of_int_eq)

text \<open>
  Claim C4, amended. Under the non-white-detection policy a pixel of an 8-bit image whose three
  channels all exceed 245 becomes \<open>(0, 0, 0, 0)\<close>; any other pixel gets the opacity
  \<open>min(255, floor(2 * average channel-deficit))\<close>, and becomes \<open>(0, 0, 0, 0)\<close> when that
  opacity is at most 10 and white with that alpha otherwise. The claim has \<open>round\<close> where the
  source has \<open>int\<close>, which truncates: the two differ whenever the doubled deficit has
  fractional part 2/3.
\<close>

theorem preserve_shape_pixel_truncates:
  assumes "valid_rgba (r, g, b, a)"
  shows "preserve_shape_pixel (r, g, b, a) =
           (if r > 245 \<and> g > 245 \<and> b > 245 then (0, 0, 0, 0)
            else let deficit = (of_int (255 - r) + of_int (255 - g) + of_int (255 - b)) / (3 :: real);
                     opacity = min 255 \<lfloor>2 * deficit\<rfloor>
                 in if opacity \<le> 10 then (0, 0, 0, 0) else (255, 255, 255, opacity))"
proof -
  define d where "d = 255 - r + 255 - g + 255 - b"
  have "2 * ((of_int (255 - r) + of_int (255 - g) + of_int (255 - b)) / (3 :: real))
          = real_of_int (2 * d) / of_int 3"
    by (simp add: d_def)
  then have "\<lfloor>2 * ((of_int (255 - r) + of_int (255 - g) + of_int (255 - b)) / (3 :: real))\<rfloor>
          = (2 * d) div 3"
    by (simp only: floor_div_real)
  then show ?thesis
    unfolding preserve_shape_pixel_value [OF assms] Let_def d_def by (simp only: not_less [symmetric] if_not_P) auto
qed

text \<open>The witness, at the pixel of the counterexample.\<close>

theorem preserve_shape_pixel_truncates_witness:
  "valid_rgba (239, 255, 255, 255) \<and> preserve_shape_pixel (239, 255, 255, 255) = (0, 0, 0, 0)"
proof -
  have v: "valid_rgba (239, 255, 255, 255)" by (simp add: valid_rgba_def valid_channel_def)
  from preserve_shape_pixel_truncates [OF v] v show ?thesis by simp
qed

text \<open>
  The counterexample: the pixel (239, 255, 255) has deficit 16/3 and doubled deficit 10.67; the
  source truncates to 10 and drops the pixel, the claim rounds to 11 and keeps it.
\<close>

theorem preserve_shape_pixel_round_counterexample:
  "preserve_shape_pixel (239, 255, 255, 255) = (0, 0, 0, 0) \<and>
   spec_preserve_shape_pixel (239, 255, 255, 255) = (255, 255, 255, 11)"
proof
  show "preserve_shape_pixel (239, 255, 255, 255) = (0, 0, 0, 0)"
    apply (simp only: preserve_shape_pixel_def prod.case Let_def)
    apply (simp add: fl_eval)
    done
  show "spec_preserve_shape_pixel (239, 255, 255, 255) = (255, 255, 255, 11)"
    by (simp add: spec_preserve_shape_pixel_def round_def)
qed

text \<open>
  Claim C5, amended. Under the brightness-threshold policy a pixel of an 8-bit image whose
  brightness exceeds 240 becomes transparent white; any other pixel becomes white with alpha
  \<open>min(255, floor(1.5 * floor(255 - brightness)))\<close>. The claim rounds once where the source
  truncates twice.
\<close>

theorem blue_to_white_pixel_truncates:
  assumes "valid_rgba (r, g, b, a)"
  shows "blue_to_white_pixel (r, g, b, a) =
           (let brightness = (of_int r + of_int g + of_int b) / (3 :: real)
            in if brightness > 240 then (255, 255, 255, 0)
               else (255, 255, 255, min 255 \<lfloor>of_int \<lfloor>255 - brightness\<rfloor> * (3 / 2 :: real)\<rfloor>))"
proof -
  let ?s = "r + g + b"
  have br: "(of_int r + of_int g + of_int b) / (3 :: real) = real_of_int ?s / of_int 3"
    by simp
  have gt: "real_of_int ?s / of_int 3 > 240 \<longleftrightarrow> ?s > 720" by auto
  have "255 - real_of_int ?s / of_int 3 = real_of_int (765 - ?s) / of_int 3"
    by (simp add: field_simps)
  then have f1: "\<lfloor>255 - real_of_int ?s / of_int 3\<rfloor> = (765 - ?s) div 3"
    by (simp only: floor_div_real)
  have "of_int n * (3 / 2 :: real) = real_of_int (3 * n) / of_int 2" for n by simp
  then have f2: "\<lfloor>of_int n * (3 / 2 :: real)\<rfloor> = (3 * n) div 2" for n
    by (simp only: floor_div_real)
  show ?thesis
    unfolding blue_to_white_pixel_value [OF assms] Let_def br gt f1 f2 ..
qed

text \<open>The witness, at the pixel of the counterexample.\<close>

theorem blue_to_white_pixel_truncates_witness:
  "valid_rgba (200, 200, 201, 255) \<and> blue_to_white_pixel (200, 200, 201, 255) = (255, 255, 255, 81)"
proof -
  have v: "valid_rgba (200, 200, 201, 255)" by (simp add: valid_rgba_def valid_channel_def)
  from blue_to_white_pixel_truncates [OF v] v show ?thesis by simp
qed

text \<open>
  The counterexample: the pixel (200, 200, 201) has brightness 601/3, so that
  \<open>(255 - brightness) * 1.5\<close> is 82 and the claim's alpha is 82 however it rounds; the source
  truncates \<open>255 - brightness\<close> to 54 and returns 81.
\<close>

theorem blue_to_white_pixel_round_counterexample:
  "blue_to_white_pixel (200, 200, 201, 255) = (255, 255, 255, 81) \<and>
   spec_blue_to_white_pixel (200, 200, 201, 255) = (255, 255, 255, 82)"
proof
  show "blue_to_white_pixel (200, 200, 201, 255) = (255, 255, 255, 81)"
    apply (simp only: blue_to_white_pixel_def prod.case Let_def)
    apply (simp add: fl_eval)
    done
  show "spec_blue_to_white_pixel (200, 200, 201, 255) = (255, 255, 255, 82)"
    by (simp add: spec_blue_to_white_pixel_def round_def)
qed

lemma preserve_shape_pixel_transparent_or_white: "transparent_or_white (preserve_shape_pixel p)"
  by (cases p) (simp add: preserve_shape_pixel_def transparent_or_white_def Let_def)

lemma blue_to_white_pixel_transparent_or_white:
  assumes "valid_rgba p"
  shows "transparent_or_white (blue_to_white_pixel p)"
proof -
  obtain r g b a where p: "p = (r, g, b, a)" by (metis prod_cases4)
  from assms have s: "0 \<le> r + g + b" "r + g + b \<le> 765"
    by (auto simp: p valid_rgba_def valid_channel_def)
  show ?thesis
  proof (cases "r + g + b > 720")
    case True
    with assms show ?thesis
      by (simp add: p blue_to_white_pixel_value transparent_or_white_def)
  next
    case False
    define n where "n = (3 * ((765 - (r + g + b)) div 3)) div 2"
    from False have "15 \<le> (765 - (r + g + b)) div 3" by simp
    then have "0 < n" unfolding n_def by simp
    then have "0 < min 255 n" by simp
    moreover have "blue_to_white_pixel (r, g, b, a) = (255, 255, 255, min 255 n)"
      unfolding blue_to_white_pixel_value [OF assms [unfolded p]] n_def
      using False by (simp only: if_False)
    ultimately show ?thesis
      unfolding p by (simp only: transparent_or_white_def prod.case simp_thms)
  qed
qed

lemma doubled_deficit_floor:
  "\<lfloor>2 * ((of_int (255 - r) + of_int (255 - g) + of_int (255 - b)) / (3 :: real))\<rfloor>
     = (2 * (255 - r + 255 - g + 255 - b)) div 3"
proof -
  have "2 * ((of_int (255 - r) + of_int (255 - g) + of_int (255 - b)) / (3 :: real))
          = real_of_int (2 * (255 - r + 255 - g + 255 - b)) / of_int 3"
    by simp
  then show ?thesis by (simp only: floor_div_real)
qed

lemma preserve_shape_alpha_zero_iff:
  assumes "valid_rgba p"
  shows "alpha (preserve_shape_pixel p) = 0 \<longleftrightarrow> non_white_background p"
proof -
  obtain r g b a where p: "p = (r, g, b, a)" by (metis prod_cases4)
  define op where "op = min 255 ((2 * (255 - r + 255 - g + 255 - b)) div 3)"
  have v: "preserve_shape_pixel (r, g, b, a) =
      (if r > 245 \<and> g > 245 \<and> b > 245 then (0, 0, 0, 0)
       else if op > 10 then (255, 255, 255, op) else (0, 0, 0, 0))"
    unfolding preserve_shape_pixel_value [OF assms [unfolded p]] Let_def op_def ..
  have bg: "non_white_background (r, g, b, a) \<longleftrightarrow> (r > 245 \<and> g > 245 \<and> b > 245) \<or> op \<le> 10"
    by (simp only: non_white_background_def prod.case doubled_deficit_floor op_def)
  show ?thesis
  proof (cases "r > 245 \<and> g > 245 \<and> b > 245")
    case True
    then show ?thesis unfolding p v bg by (simp add: alpha_def)
  next
    case False
    then show ?thesis unfolding p v bg by (cases "op > 10") (simp_all add: alpha_def)
  qed
qed

lemma blue_to_white_alpha_zero_iff:
  assumes "valid_rgba p"
  shows "alpha (blue_to_white_pixel p) = 0 \<longleftrightarrow> brightness_background p"
proof -
  obtain r g b a where p: "p = (r, g, b, a)" by (metis prod_cases4)
  from assms have s: "0 \<le> r + g + b" "r + g + b \<le> 765"
    by (auto simp: p valid_rgba_def valid_channel_def)
  have bg: "brightness_background p \<longleftrightarrow> r + g + b > 720"
    by (auto simp: p brightness_background_def)
  show ?thesis
  proof (cases "r + g + b > 720")
    case True
    with assms show ?thesis
      unfolding bg by (simp add: p blue_to_white_pixel_value alpha_def)
  next
    case False
    define n where "n = (3 * ((765 - (r + g + b)) div 3)) div 2"
    from False have "15 \<le> (765 - (r + g + b)) div 3" by simp
    then have "0 < n" unfolding n_def by simp
    then have "min 255 n \<noteq> 0" by simp
    moreover have "blue_to_white_pixel (r, g, b, a) = (255, 255, 255, min 255 n)"
      unfolding blue_to_white_pixel_value [OF assms [unfolded p]] n_def
      using False by (simp only: if_False)
    ultimately have "alpha (blue_to_white_pixel p) \<noteq> 0"
      unfolding p by (simp add: alpha_def)
    moreover have "\<not> brightness_background p" using False bg by simp
    ultimately show ?thesis by simp
  qed
qed

text \<open>
  Claim C7. For both policies and every logo whose RGBA form is an 8-bit image, the output has
  the width and height of that image, and every pixel of it is either fully transparent
  (alpha 0) or pure white with alpha above 0. The transparent pixels are exactly those the
  policy classifies as background: a background pixel is never partially transparent, and a
  foreground pixel is white with alpha above 0.
\<close>

theorem recolor_transparent_or_white:
  assumes "\<forall>x < width (as_RGBA cv logo). \<forall>y < height (as_RGBA cv logo).
             valid_rgba (px (as_RGBA cv logo) (x, y))"
  shows "width (convert_to_white_preserve_shape cv logo) = width (as_RGBA cv logo) \<and>
         height (convert_to_white_preserve_shape cv logo) = height (as_RGBA cv logo) \<and>
         width (convert_blue_to_white cv logo) = width (as_RGBA cv logo) \<and>
         height (convert_blue_to_white cv logo) = height (as_RGBA cv logo) \<and>
         (\<forall>x < width (as_RGBA cv logo). \<forall>y < height (as_RGBA cv logo).
            transparent_or_white (px (convert_to_white_preserve_shape cv logo) (x, y)) \<and>
            transparent_or_white (px (convert_blue_to_white cv logo) (x, y)) \<and>
            (alpha (px (convert_to_white_preserve_shape cv logo) (x, y)) = 0
               \<longleftrightarrow> non_white_background (px (as_RGBA cv logo) (x, y))) \<and>
            (alpha (px (convert_blue_to_white cv logo) (x, y)) = 0
               \<longleftrightarrow> brightness_background (px (as_RGBA cv logo) (x, y))))"
  using assms
  by (simp add: convert_to_white_preserve_shape_def convert_blue_to_white_def for_each_pixel_eq
      preserve_shape_pixel_transparent_or_white blue_to_white_pixel_transparent_or_white
      preserve_shape_alpha_zero_iff blue_to_white_alpha_zero_iff)

text \<open>The witness, on the two-pixel logo.\<close>

theorem recolor_transparent_or_white_witness:
  "width (convert_blue_to_white (convert_RGBA example_icon_pil) two_pixel_logo) = 2 \<and>
   height (convert_to_white_preserve_shape (convert_RGBA example_icon_pil) two_pixel_logo) = 1 \<and>
   transparent_or_white (px (convert_blue_to_white (convert_RGBA example_icon_pil) two_pixel_logo) (0, 0)) \<and>
   transparent_or_white (px (convert_to_white_preserve_shape (convert_RGBA example_icon_pil) two_pixel_logo) (1, 0)) \<and>
   alpha (px (convert_to_white_preserve_shape (convert_RGBA example_icon_pil) two_pixel_logo) (1, 0)) = 0 \<and>
   alpha (px (convert_blue_to_white (convert_RGBA example_icon_pil) two_pixel_logo) (0, 0)) \<noteq> 0"
proof -
  have v: "\<forall>x < width (as_RGBA (convert_RGBA example_icon_pil) two_pixel_logo).
      \<forall>y < height (as_RGBA (convert_RGBA example_icon_pil) two_pixel_logo).
        valid_rgba (px (as_RGBA (convert_RGBA example_icon_pil) two_pixel_logo) (x, y))"
    by (simp add: two_pixel_logo_def as_RGBA_def valid_rgba_def valid_channel_def)
  from recolor_transparent_or_white [OF v] show ?thesis
    by (simp add: two_pixel_logo_def as_RGBA_def non_white_background_def
        brightness_background_def)
qed


section \<open>The whitespace trimmer: fill estimation\<close>

lemma getdata_crop_row:
  "getdata (crop img (0, y, w, y + 1)) = map (\<lambda>x. px img (x, y)) [0..<w]"
  by (simp add: getdata_def crop_def)

lemma getdata_crop_rows:
  "getdata (crop img (0, u, w, d)) = concat (map (\<lambda>y. map (\<lambda>x. px img (x, y)) [0..<w]) [u..<d])"
proof -
  have "map (\<lambda>y. map (\<lambda>x. px img (x, y + u)) [0..<w]) [0..<d - u]
          = map (\<lambda>y. map (\<lambda>x. px img (x, y)) [0..<w]) (map (\<lambda>y. y + u) [0..<d - u])"
    by simp
  also have "map (\<lambda>y. y + u) [0..<d - u] = [u..<d]"
    by (cases "u \<le> d") (simp_all add: map_add_upt)
  finally show ?thesis by (simp add: getdata_def crop_def)
qed


text \<open>The element in the middle of the sorted list is a median.\<close>

lemma sorted_filter_less_take:
  assumes "sorted xs" and "k < length xs"
  shows "length (filter (\<lambda>x. x < xs ! k) xs) \<le> k"
proof -
  have "filter (\<lambda>x. x < xs ! k) (drop k xs) = []"
  proof -
    have "\<not> x < xs ! k" if "x \<in> set (drop k xs)" for x
    proof -
      from that obtain i where "i < length (drop k xs)" "x = drop k xs ! i"
        by (auto simp: in_set_conv_nth)
      then have "x = xs ! (k + i)" "k + i < length xs" by auto
      with assms show ?thesis using sorted_nth_mono [of xs k "k + i"] by simp
    qed
    then show ?thesis by (simp add: filter_empty_conv)
  qed
  moreover have "filter (\<lambda>x. x < xs ! k) xs
      = filter (\<lambda>x. x < xs ! k) (take k xs) @ filter (\<lambda>x. x < xs ! k) (drop k xs)"
    by (metis append_take_drop_id filter_append)
  ultimately have "length (filter (\<lambda>x. x < xs ! k) xs) = length (filter (\<lambda>x. x < xs ! k) (take k xs))"
    by simp
  also have "\<dots> \<le> length (take k xs)" by (rule length_filter_le)
  also have "\<dots> \<le> k" by simp
  finally show ?thesis .
qed

lemma sorted_filter_greater_drop:
  assumes "sorted xs" and "k < length xs"
  shows "length (filter (\<lambda>x. xs ! k < x) xs) \<le> length xs - Suc k"
proof -
  have "filter (\<lambda>x. xs ! k < x) (take (Suc k) xs) = []"
  proof -
    have "\<not> xs ! k < x" if "x \<in> set (take (Suc k) xs)" for x
    proof -
      from that obtain i where "i < length (take (Suc k) xs)" "x = take (Suc k) xs ! i"
        by (auto simp: in_set_conv_nth)
      then have "x = xs ! i" "i \<le> k" by auto
      with assms show ?thesis using sorted_nth_mono [of xs i k] by simp
    qed
    then show ?thesis by (simp add: filter_empty_conv)
  qed
  moreover have "filter (\<lambda>x. xs ! k < x) xs
      = filter (\<lambda>x. xs ! k < x) (take (Suc k) xs) @ filter (\<lambda>x. xs ! k < x) (drop (Suc k) xs)"
    by (metis append_take_drop_id filter_append)
  ultimately have "length (filter (\<lambda>x. xs ! k < x) xs)
      = length (filter (\<lambda>x. xs ! k < x) (drop (Suc k) xs))"
    by simp
  also have "\<dots> \<le> length (drop (Suc k) xs)" by (rule length_filter_le)
  finally show ?thesis by simp
qed

lemma middle_of_sorted_is_median:
  fixes xs :: "int list"
  assumes "xs \<noteq> []"
  shows "is_median xs (sort xs ! (length xs div 2))"
proof -
  define ys where "ys = sort xs"
  define k where "k = length xs div 2"
  have ys: "sorted ys" "length ys = length xs" "set ys = set xs"
    by (simp_all add: ys_def)
  have k: "k < length ys" using assms by (simp add: ys k_def)
  have cnt: "length (filter P xs) = length (filter P ys)" for P
    by (simp add: ys_def filter_sort)
  have "ys ! k \<in> set xs" using k ys(3) nth_mem by blast
  moreover have "2 * length (filter (\<lambda>x. x < ys ! k) xs) \<le> length xs"
    using sorted_filter_less_take [OF ys(1) k] by (simp add: cnt k_def)
  moreover have "2 * length (filter (\<lambda>x. ys ! k < x) xs) \<le> length xs"
    using sorted_filter_greater_drop [OF ys(1) k] by (simp add: cnt ys(2) k_def)
  ultimately show ?thesis by (simp add: is_median_def ys_def k_def)
qed

lemma median_color_nonempty:
  assumes "pixels \<noteq> []"
  shows "\<exists>r g b. median_color pixels = Inr (r, g, b)
           \<and> is_median (map (\<lambda>(r, g, b). r) pixels) r
           \<and> is_median (map (\<lambda>(r, g, b). g) pixels) g
           \<and> is_median (map (\<lambda>(r, g, b). b) pixels) b"
proof -
  have "length pixels div 2 < length pixels" using assms by simp
  moreover have "map f pixels \<noteq> []" for f :: "rgb \<Rightarrow> int" using assms by simp
  ultimately show ?thesis
    using middle_of_sorted_is_median [of "map (\<lambda>(r, g, b). r) pixels"]
      middle_of_sorted_is_median [of "map (\<lambda>(r, g, b). g) pixels"]
      middle_of_sorted_is_median [of "map (\<lambda>(r, g, b). b) pixels"]
    by (simp add: median_color_def Let_def)
qed






section \<open>The whitespace trimmer: boundary detection\<close>

lemma white_row_tests:
  "bottom_is_white [(255, 255, 255)]" "\<not> row_is_content [(255, 255, 255)]"
   apply (simp_all only: bottom_is_white_def row_is_content_def Let_def)
   apply (simp_all add: fl_eval channel_sum_def all_above_250_def)
  done

lemma grey_row_tests:
  "\<not> bottom_is_white [(100, 100, 100)]" "row_is_content [(100, 100, 100)]"
   apply (simp_all only: bottom_is_white_def row_is_content_def Let_def)
   apply (simp_all add: fl_eval channel_sum_def all_above_250_def)
  done

lemma black_row_tests:
  "\<not> bottom_is_white [(0, 0, 0)]" "row_is_content [(0, 0, 0)]"
   apply (simp_all only: bottom_is_white_def row_is_content_def Let_def)
   apply (simp_all add: fl_eval channel_sum_def all_above_250_def)
  done

lemma row_240_tests:
  "\<not> bottom_is_white [(240, 240, 240)]" "\<not> row_is_content [(240, 240, 240)]"
   apply (simp_all only: bottom_is_white_def row_is_content_def Let_def)
   apply (simp_all add: fl_eval channel_sum_def all_above_250_def)
  done

lemma four_of_five_tests:
  "\<not> bottom_is_white [(255, 255, 255), (255, 255, 255), (255, 255, 255), (255, 255, 255), (0, 0, 0)]"
  "\<not> row_is_content [(255, 255, 255), (255, 255, 255), (255, 255, 255), (255, 255, 255), (0, 0, 0)]"
   apply (simp_all only: bottom_is_white_def row_is_content_def Let_def)
   apply (simp_all add: fl_eval channel_sum_def all_above_250_def)
  done

lemma load_normalised_same_size:
  "width (open_RGB pil file) = tw \<Longrightarrow> height (open_RGB pil file) = th \<Longrightarrow>
   load_normalised pil file tw th = (file, open_RGB pil file)"
  by (simp add: load_normalised_def)

lemma grey_over_white_rows:
  "getdata (crop grey_over_white
     (0, height grey_over_white - 1, width grey_over_white, height grey_over_white))
     = [(255, 255, 255)]"
  "scan_rows (height grey_over_white) = [1]"
  "getdata (crop grey_over_white (0, 1, width grey_over_white, 1 + 1)) = [(255, 255, 255)]"
  "width grey_over_white = 1" "height grey_over_white = 2"
  by code_simp+

lemma detect_grey_over_white: "detect_content_bottom grey_over_white = Inr None"
  unfolding detect_content_bottom_def Let_def grey_over_white_rows(1,2,3) find_content_bottom.simps
  by (simp add: white_row_tests)

lemma black_240_white_rows:
  "getdata (crop black_240_white
     (0, height black_240_white - 1, width black_240_white, height black_240_white))
     = [(255, 255, 255)]"
  "scan_rows (height black_240_white) = [3, 2, 1]"
  "getdata (crop black_240_white (0, 3, width black_240_white, 3 + 1)) = [(255, 255, 255)]"
  "getdata (crop black_240_white (0, 2, width black_240_white, 2 + 1)) = [(240, 240, 240)]"
  "getdata (crop black_240_white (0, 1, width black_240_white, 1 + 1)) = [(0, 0, 0)]"
  by code_simp+

lemma detect_black_240_white: "detect_content_bottom black_240_white = Inr (Some 2)"
  unfolding detect_content_bottom_def Let_def black_240_white_rows find_content_bottom.simps
  by (simp add: white_row_tests row_240_tests black_row_tests)

lemma one_grey_pixel_rows:
  "getdata (crop one_grey_pixel
     (0, height one_grey_pixel - 1, width one_grey_pixel, height one_grey_pixel))
     = [(100, 100, 100)]"
  "width one_grey_pixel = 1" "height one_grey_pixel = 1"
  by code_simp+

lemma resized_grey_pixel_rows:
  "getdata (crop (resize_nearest one_grey_pixel (1, 2))
     (0, height (resize_nearest one_grey_pixel (1, 2)) - 1,
      width (resize_nearest one_grey_pixel (1, 2)),
      height (resize_nearest one_grey_pixel (1, 2))))
     = [(100, 100, 100)]"
  "height (resize_nearest one_grey_pixel (1, 2)) = 2"
  by code_simp+

lemma scan_rows_eq: "scan_rows h = rev [Suc (h - 100)..<h]"
  by (cases h) (simp_all add: scan_rows_def range_down_def)

lemma scan_rows_window:
  "length (scan_rows h) \<le> 99" "h - 100 \<notin> set (scan_rows h)" "0 \<notin> set (scan_rows h)"
  by (simp_all add: scan_rows_eq)

lemma black_240_white_fill:
  "width black_240_white = 1" "height black_240_white = 4"
  "estimate_bg_color (sample_pixels_of black_240_white 2) = Inr (0, 0, 0)"
  "px (extended_image black_240_white 1 4 2 (0, 0, 0)) (0, 2) = (0, 0, 0)"
  "px black_240_white (0, 2) = (240, 240, 240)"
  by code_simp+

text \<open>
  Claim C1, on an image the source does not handle as the claim says. The claim has the scan
  cover a window of 100 rows from the last row. The loop is
  \<open>range(height - 1, max(0, height - 100), -1)\<close>, which leaves its stop value out: it visits
  the rows \<open>height - 1\<close> down to \<open>height - 99\<close>, 99 rows at most, and never row 0
  (\<open>scan_rows_window\<close>). On the image of two rows, grey over white, the bottom row is white
  and the row above it is content by both tests of the source, yet the scan visits row 1
  alone, finds nothing, and the function returns \<open>False\<close> with the file as it was; the claim
  puts the boundary at 1.
\<close>

theorem scan_misses_last_row_of_window:
  "\<not> bottom_is_white [(100, 100, 100)] \<and> row_is_content [(100, 100, 100)] \<and>
   bottom_is_white [(255, 255, 255)] \<and>
   scan_rows (height grey_over_white) = [1] \<and>
   detect_content_bottom grey_over_white = Inr None \<and>
   remove_white_space png_pil grey_over_white (Some 1) (Some 2) = (Inr False, grey_over_white)"
proof -
  have "load_normalised png_pil grey_over_white 1 2 = (grey_over_white, grey_over_white)"
    by (simp add: load_normalised_same_size png_pil_def grey_over_white_rows)
  then have rws:
    "remove_white_space png_pil grey_over_white (Some 1) (Some 2) = (Inr False, grey_over_white)"
    by (simp add: remove_white_space_def detect_grey_over_white)
  show ?thesis
    by (intro conjI grey_row_tests white_row_tests(1) grey_over_white_rows(2)
        detect_grey_over_white rws)
qed

text \<open>
  Claim C2, on rows the source does not classify as the claim says. The scan takes a row for
  content when its average brightness is below 240 and its white fraction below 0.8, both
  strictly, where the test of the bottom row calls a row white when one of the two exceeds
  its bound. A row at average brightness exactly 240, or at white fraction exactly 0.8, is
  not white for the bottom test and not content for the scan. In the image of four rows
  (black, black, 240-grey, white) the scan passes over row 2 and sets the boundary at 2,
  where the claim sets it at 3; the function returns \<open>True\<close> and the image written back has
  the fill colour in row 2, over the grey.
\<close>

theorem row_at_threshold_is_neither:
  "\<not> bottom_is_white [(240, 240, 240)] \<and> \<not> row_is_content [(240, 240, 240)] \<and>
   \<not> bottom_is_white
       [(255, 255, 255), (255, 255, 255), (255, 255, 255), (255, 255, 255), (0, 0, 0)] \<and>
   \<not> row_is_content
       [(255, 255, 255), (255, 255, 255), (255, 255, 255), (255, 255, 255), (0, 0, 0)] \<and>
   detect_content_bottom black_240_white = Inr (Some 2) \<and>
   fst (remove_white_space png_pil black_240_white (Some 1) (Some 4)) = Inr True \<and>
   px (snd (remove_white_space png_pil black_240_white (Some 1) (Some 4))) (0, 2) = (0, 0, 0) \<and>
   px black_240_white (0, 2) = (240, 240, 240)"
proof -
  have "load_normalised png_pil black_240_white 1 4 = (black_240_white, black_240_white)"
    by (simp add: load_normalised_same_size png_pil_def black_240_white_fill)
  then have rws: "remove_white_space png_pil black_240_white (Some 1) (Some 4)
      = (Inr True, extended_image black_240_white 1 4 2 (0, 0, 0))"
    by (simp add: remove_white_space_def detect_black_240_white black_240_white_fill png_pil_def)
  show ?thesis
    unfolding rws fst_conv snd_conv
    by (intro conjI row_240_tests four_of_five_tests detect_black_240_white
        black_240_white_fill(4,5) refl)
qed

text \<open>
  Claim C9, amended. When the bottom row is not white, or no row of the scan passes the content
  test, the function returns \<open>False\<close>, raises nothing, and writes no fill: the file is as
  phase 1 left it. That is the file unchanged when the image already has the target size, and
  the resized image, saved by phase 1, when it has another size; the claim leaves the second
  case out. The image the tests are made on is the one read back from that file.
\<close>

theorem trimmer_no_op_keeps_normalised_file:
  assumes "load_normalised pil file
             (case target_width of None \<Rightarrow> 1242 | Some w \<Rightarrow> w)
             (case target_height of None \<Rightarrow> 2688 | Some h \<Rightarrow> h) = (file', img)"
    and "0 < width img" and "0 < height img"
    and "\<not> bottom_is_white (getdata (crop img (0, height img - 1, width img, height img)))
         \<or> find_content_bottom img (scan_rows (height img)) = None"
  shows "remove_white_space pil file target_width target_height = (Inr False, file') \<and>
         file' =
           (if width (open_RGB pil file) = (case target_width of None \<Rightarrow> 1242 | Some w \<Rightarrow> w) \<and>
               height (open_RGB pil file) = (case target_height of None \<Rightarrow> 2688 | Some h \<Rightarrow> h)
            then file
            else save pil (resize pil (open_RGB pil file)
                   ((case target_width of None \<Rightarrow> 1242 | Some w \<Rightarrow> w),
                    (case target_height of None \<Rightarrow> 2688 | Some h \<Rightarrow> h)))) \<and>
         img = open_RGB pil file'"
proof -
  have "[height img - 1..<height img] = [height img - 1]"
    using assms(3) by (simp add: upt_conv_Cons)
  then have "length (getdata (crop img (0, height img - 1, width img, height img))) = width img"
    by (simp add: getdata_crop_rows)
  with assms(2,4) have "detect_content_bottom img = Inr None"
    by (auto simp: detect_content_bottom_def Let_def)
  with assms(1) have "remove_white_space pil file target_width target_height = (Inr False, file')"
    by (simp add: remove_white_space_def)
  moreover from assms(1) have "file' =
           (if width (open_RGB pil file) = (case target_width of None \<Rightarrow> 1242 | Some w \<Rightarrow> w) \<and>
               height (open_RGB pil file) = (case target_height of None \<Rightarrow> 2688 | Some h \<Rightarrow> h)
            then file
            else save pil (resize pil (open_RGB pil file)
                   ((case target_width of None \<Rightarrow> 1242 | Some w \<Rightarrow> w),
                    (case target_height of None \<Rightarrow> 2688 | Some h \<Rightarrow> h))))"
    by (auto simp: load_normalised_def Let_def split: if_splits)
  moreover from assms(1) have "img = open_RGB pil file'"
    by (auto simp: load_normalised_def Let_def split: if_splits)
  ultimately show ?thesis by blast
qed

text \<open>The witness: one grey pixel, at target size 1 by 1 and at target size 1 by 2.\<close>

theorem trimmer_no_op_witness:
  "remove_white_space png_pil one_grey_pixel (Some 1) (Some 1) = (Inr False, one_grey_pixel) \<and>
   remove_white_space png_pil one_grey_pixel (Some 1) (Some 2)
     = (Inr False, resize_nearest one_grey_pixel (1, 2))"
proof -
  have l: "load_normalised png_pil one_grey_pixel
             (case Some 1 of None \<Rightarrow> 1242 | Some w \<Rightarrow> w)
             (case Some 1 of None \<Rightarrow> 2688 | Some h \<Rightarrow> h) = (one_grey_pixel, one_grey_pixel)"
    by (simp add: load_normalised_same_size png_pil_def one_grey_pixel_rows)
  have w: "0 < width one_grey_pixel" "0 < height one_grey_pixel"
    by (simp_all add: one_grey_pixel_rows)
  have b: "\<not> bottom_is_white (getdata (crop one_grey_pixel
               (0, height one_grey_pixel - 1, width one_grey_pixel, height one_grey_pixel)))
         \<or> find_content_bottom one_grey_pixel (scan_rows (height one_grey_pixel)) = None"
    unfolding one_grey_pixel_rows(1) by (simp add: grey_row_tests)
  define resized where "resized = resize_nearest one_grey_pixel (1, 2)"
  have l2: "load_normalised png_pil one_grey_pixel
             (case Some 1 of None \<Rightarrow> 1242 | Some w \<Rightarrow> w)
             (case Some 2 of None \<Rightarrow> 2688 | Some h \<Rightarrow> h) = (resized, resized)"
    by (simp add: load_normalised_def png_pil_def one_grey_pixel_rows resized_def Let_def)
  have w2: "0 < width resized" "0 < height resized"
    by (simp_all add: resized_def resize_nearest_def)
  have b2: "\<not> bottom_is_white (getdata (crop resized
               (0, height resized - 1, width resized, height resized)))
         \<or> find_content_bottom resized (scan_rows (height resized)) = None"
    unfolding resized_def resized_grey_pixel_rows(1) by (simp add: grey_row_tests)
  from trimmer_no_op_keeps_normalised_file [OF l w b]
    trimmer_no_op_keeps_normalised_file [OF l2 w2 b2]
  show ?thesis unfolding resized_def by simp
qed

text \<open>
  The counterexample: the same file at target size 1 by 2. Its bottom row is not white, the
  function returns \<open>False\<close>, and the file now holds an image of height 2.
\<close>

theorem trimmer_no_op_resize_counterexample:
  "fst (remove_white_space png_pil one_grey_pixel (Some 1) (Some 2)) = Inr False \<and>
   height (snd (remove_white_space png_pil one_grey_pixel (Some 1) (Some 2))) = 2 \<and>
   height one_grey_pixel = 1 \<and>
   snd (remove_white_space png_pil one_grey_pixel (Some 1) (Some 2)) \<noteq> one_grey_pixel"
proof -
  define resized where "resized = resize_nearest one_grey_pixel (1, 2)"
  have l: "load_normalised png_pil one_grey_pixel 1 2 = (resized, resized)"
    by (simp add: load_normalised_def png_pil_def one_grey_pixel_rows resized_def Let_def)
  have sz: "height resized = 2" unfolding resized_def by (rule resized_grey_pixel_rows(2))
  have "detect_content_bottom resized = Inr None"
    unfolding detect_content_bottom_def Let_def resized_def resized_grey_pixel_rows(1)
    by (simp add: grey_row_tests)
  with l have "remove_white_space png_pil one_grey_pixel (Some 1) (Some 2) = (Inr False, resized)"
    by (simp add: remove_white_space_def)
  moreover have "height one_grey_pixel = 1" by (simp add: one_grey_pixel_rows)
  ultimately show ?thesis using sz by auto
qed


section \<open>The compositor\<close>

lemma main_Some:
  "main pil (Some logo) =
     Some \<lparr>width = ICON_SIZE, height = ICON_SIZE,
           px = (\<lambda>(x, y).
             let logo_white = thumbnail pil
                   (convert_to_white_preserve_shape (convert_RGBA pil) logo) (LOGO_SIZE, LOGO_SIZE);
                 offset = (centre_offset ICON_SIZE (width logo_white),
                           centre_offset ICON_SIZE (height logo_white));
                 bg = px (create_gradient ICON_SIZE GRADIENT_START GRADIENT_END) (x, y)
             in if in_box offset (width logo_white, height logo_white) (x, y)
                then (case blend pil (case bg of (r, g, b) \<Rightarrow> (r, g, b, 255))
                            (px logo_white (nat (int x - fst offset), nat (int y - snd offset)))
                      of (r, g, b, a) \<Rightarrow> (r, g, b))
                else bg)\<rparr>"
  by (simp add: main_def Let_def paste_with_def convert_RGB_to_RGBA_def convert_RGBA_to_RGB_def
      create_gradient_eq centre_offset_def in_box_def fun_eq_iff split: prod.splits)

text \<open>
  Claim C8. \<open>main\<close> composites on the gradient canvas of \<open>ICON_SIZE\<close>; whatever the logo, the
  resampler and the blend are, it saves an image, and that image has the canvas's width and
  height, is RGB (three channels, no alpha), and at every pixel outside the box of the
  thumbnailed logo placed at offset \<open>(ICON_SIZE - logo_dim) div 2\<close> on each axis holds the
  gradient's pixel; inside the box it holds the blend of the gradient's pixel with the logo
  pixel that the offset puts there, without its alpha.
\<close>

theorem compositor_frame:
  "\<exists>out. main pil (Some logo) = Some out \<and> width out = ICON_SIZE \<and> height out = ICON_SIZE \<and>
     (\<forall>x y. px out (x, y) =
        (let logo_white = thumbnail pil
               (convert_to_white_preserve_shape (convert_RGBA pil) logo) (LOGO_SIZE, LOGO_SIZE);
             offset = (centre_offset ICON_SIZE (width logo_white),
                       centre_offset ICON_SIZE (height logo_white));
             bg = px (create_gradient ICON_SIZE GRADIENT_START GRADIENT_END) (x, y)
         in if in_box offset (width logo_white, height logo_white) (x, y)
            then (case blend pil (case bg of (r, g, b) \<Rightarrow> (r, g, b, 255))
                        (px logo_white (nat (int x - fst offset), nat (int y - snd offset)))
                  of (r, g, b, a) \<Rightarrow> (r, g, b))
            else bg))"
  unfolding main_Some by simp

lemma single_pixel_preserve_shape:
  "convert_to_white_preserve_shape cv (single_pixel_logo p) =
     \<lparr>width = 1, height = 1,
      px = (\<lambda>xy. if xy = (0, 0) then preserve_shape_pixel p else (0, 0, 0, 0))\<rparr>"
  by (auto simp: convert_to_white_preserve_shape_def for_each_pixel_eq single_pixel_logo_def
      as_RGBA_def fun_eq_iff)

lemma single_pixel_blue_to_white:
  "convert_blue_to_white cv (single_pixel_logo p) =
     \<lparr>width = 1, height = 1,
      px = (\<lambda>xy. if xy = (0, 0) then blue_to_white_pixel p else (0, 0, 0, 0))\<rparr>"
  by (auto simp: convert_blue_to_white_def for_each_pixel_eq single_pixel_logo_def
      as_RGBA_def fun_eq_iff)

lemma example_pixels:
  "preserve_shape_pixel (250, 250, 250, 255) = (0, 0, 0, 0)"
  "preserve_shape_pixel (255, 255, 255, 255) = (0, 0, 0, 0)"
  "preserve_shape_pixel (241, 241, 241, 255) = (255, 255, 255, 28)"
  "blue_to_white_pixel (241, 241, 241, 255) = (255, 255, 255, 0)"
  "blue_to_white_pixel (255, 255, 255, 255) = (255, 255, 255, 0)"
  by (simp_all add: preserve_shape_pixel_value blue_to_white_pixel_value valid_rgba_def
      valid_channel_def)

lemma centre_pixel_of_gradient:
  "px (create_gradient ICON_SIZE GRADIENT_START GRADIENT_END) (511, 511) = (109, 100, 198)"
proof -
  have v: "valid_rgb GRADIENT_START" "valid_rgb GRADIENT_END"
    by (simp_all add: valid_rgb_def valid_channel_def GRADIENT_START_def GRADIENT_END_def)
  have "gradient_pixel (2 ^ 10) GRADIENT_START GRADIENT_END 511 511
          = spec_gradient_pixel (2 ^ 10) GRADIENT_START GRADIENT_END 511 511"
    using v by (intro gradient_pixel_dyadic) simp_all
  also have "\<dots> = (109, 100, 198)"
    by (simp add: spec_gradient_pixel_def GRADIENT_START_def GRADIENT_END_def interpolate_def
        py_int_def)
  finally show ?thesis by (simp add: create_gradient_eq ICON_SIZE_def)
qed

lemma main_single_pixel_centre:
  "map_option (\<lambda>out. px out (511, 511)) (main example_icon_pil (Some (single_pixel_logo p)))
     = Some (case blend_over (109, 100, 198, 255) (preserve_shape_pixel p) of (r, g, b, a) \<Rightarrow> (r, g, b))"
  unfolding main_Some
  by (simp add: example_icon_pil_def single_pixel_preserve_shape centre_offset_def in_box_def
      ICON_SIZE_def [of] centre_pixel_of_gradient [unfolded ICON_SIZE_def] Let_def)

text \<open>
  Claim C10. The icon is a function of what \<open>convert_to_white_preserve_shape\<close> makes of the
  logo: two logos that it maps to the same image give the same icon. The brightness-threshold
  pass plays no part: the pixels (241, 241, 241) and (255, 255, 255) are the same to
  \<open>convert_blue_to_white\<close> (both transparent) and give different icons, since the
  non-white-detection rules keep the first at alpha 28.
\<close>

theorem main_uses_preserve_shape_only:
  "(\<forall>pil l1 l2 :: 'o logo.
      convert_to_white_preserve_shape (convert_RGBA pil) l1
        = convert_to_white_preserve_shape (convert_RGBA pil) l2
      \<longrightarrow> main pil (Some l1) = main pil (Some l2)) \<and>
   convert_blue_to_white (convert_RGBA example_icon_pil) (single_pixel_logo (241, 241, 241, 255))
     = convert_blue_to_white (convert_RGBA example_icon_pil) (single_pixel_logo (255, 255, 255, 255)) \<and>
   main example_icon_pil (Some (single_pixel_logo (241, 241, 241, 255)))
     \<noteq> main example_icon_pil (Some (single_pixel_logo (255, 255, 255, 255)))"
proof (intro conjI allI impI)
  fix pil :: "'o icon_pil" and l1 l2 :: "'o logo"
  assume "convert_to_white_preserve_shape (convert_RGBA pil) l1
        = convert_to_white_preserve_shape (convert_RGBA pil) l2"
  then show "main pil (Some l1) = main pil (Some l2)"
    by (simp add: main_def)
next
  show "convert_blue_to_white (convert_RGBA example_icon_pil) (single_pixel_logo (241, 241, 241, 255))
     = convert_blue_to_white (convert_RGBA example_icon_pil) (single_pixel_logo (255, 255, 255, 255))"
    by (simp only: single_pixel_blue_to_white example_pixels)
next
  have "map_option (\<lambda>out. px out (511, 511))
          (main example_icon_pil (Some (single_pixel_logo (241, 241, 241, 255))))
        \<noteq> map_option (\<lambda>out. px out (511, 511))
          (main example_icon_pil (Some (single_pixel_logo (255, 255, 255, 255))))"
    unfolding main_single_pixel_centre by (simp add: example_pixels blend_over_def)
  then show "main example_icon_pil (Some (single_pixel_logo (241, 241, 241, 255)))
     \<noteq> main example_icon_pil (Some (single_pixel_logo (255, 255, 255, 255)))"
    by auto
qed

text \<open>The witness: two different background pixels, one icon.\<close>

theorem main_uses_preserve_shape_only_witness:
  "main example_icon_pil (Some (single_pixel_logo (250, 250, 250, 255)))
     = main example_icon_pil (Some (single_pixel_logo (255, 255, 255, 255))) \<and>
   single_pixel_logo (250, 250, 250, 255) \<noteq> single_pixel_logo (255, 255, 255, 255)"
proof -
  have "convert_to_white_preserve_shape (convert_RGBA example_icon_pil)
          (single_pixel_logo (250, 250, 250, 255))
        = convert_to_white_preserve_shape (convert_RGBA example_icon_pil)
          (single_pixel_logo (255, 255, 255, 255))"
    by (simp only: single_pixel_preserve_shape example_pixels)
  with main_uses_preserve_shape_only [where 'o = unit]
  have "main example_icon_pil (Some (single_pixel_logo (250, 250, 250, 255)))
     = main example_icon_pil (Some (single_pixel_logo (255, 255, 255, 255)))"
    by blast
  moreover have "single_pixel_logo (250, 250, 250, 255) \<noteq> single_pixel_logo (255, 255, 255, 255)"
    by (simp add: single_pixel_logo_def fun_eq_iff)
  ultimately show ?thesis ..
qed

end
